theory Spec2Isabelle
  imports Complex_Main "HOL-Library.AList"
begin

section \<open>Errors\<close>

text \<open>
  The error codes of \<^verbatim>\<open>errors.ts\<close>. A thrown \<^verbatim>\<open>GQPError\<close> is the left injection of a
  sum; it carries its code, the subject it was raised for (a node name or a field path)
  and the reason given to \<^verbatim>\<open>createError.validation\<close>, without the interpolated numbers.
\<close>

datatype GQPErrorCode =
  INVALID_ACTION | INVALID_NODE | NODE_NOT_FOUND | NODE_REQUIRED | ADAPTER_NOT_FOUND
  | VALIDATION_ERROR | AUTHORIZATION_ERROR | ACCESS_DENIED | INTROSPECTION_DISABLED
  | QUERY_ERROR | TIMEOUT_ERROR | CONFIGURATION_ERROR | CURSOR_NOT_FOUND | CURSOR_EXPIRED
  | RATE_LIMIT_ERROR | PARSE_ERROR | INTERNAL_ERROR

datatype GQPError = GQPError (code: GQPErrorCode) (subject: string) (reason: string)

section \<open>Schema graph (\<^verbatim>\<open>schema.ts\<close>)\<close>

datatype RelationType = belongsTo | hasOne | hasMany

record GQPField =
  field_name :: string
  field_type :: string
  directives :: "string list"

record GQPEdge =
  edge_name :: string
  edge_to :: string
  relation :: RelationType

record GQPNode =
  node_name :: string
  description :: "string option"
  node_fields :: "GQPField list"
  node_edges :: "GQPEdge list"
  capabilities :: "string list"
  source :: string

text \<open>
  A JavaScript \<^verbatim>\<open>Map\<close> iterates in insertion order and \<^verbatim>\<open>set\<close> on a present key keeps
  the key's position: an association list with \<^const>\<open>AList.update\<close>. A \<^verbatim>\<open>Set\<close> is a
  list without repetitions, \<^verbatim>\<open>add\<close> appending an absent element.
\<close>

definition set_add :: "'a list \<Rightarrow> 'a \<Rightarrow> 'a list" where
  "set_add xs x = (if x \<in> set xs then xs else xs @ [x])"

record GQPSchema =
  nodes :: "(string \<times> GQPNode) list"
  rootNodeNames :: "string list"
  edgeIndex :: "(string \<times> string list) list"

definition empty_schema :: GQPSchema where
  "empty_schema = \<lparr>nodes = [], rootNodeNames = [], edgeIndex = []\<rparr>"

fun index_edges :: "string \<Rightarrow> GQPEdge list \<Rightarrow> (string \<times> string list) list
    \<Rightarrow> (string \<times> string list) list" where
  "index_edges n [] ei = ei"
| "index_edges n (e # es) ei =
     index_edges n es
       (case map_of ei n of
          None \<Rightarrow> AList.update n [edge_to e] ei
        | Some ts \<Rightarrow> AList.update n (set_add ts (edge_to e)) ei)"

definition addNode :: "GQPSchema \<Rightarrow> GQPNode \<Rightarrow> bool \<Rightarrow> GQPSchema" where
  "addNode g node isRoot =
     g\<lparr>nodes := AList.update (node_name node) node (nodes g),
       rootNodeNames := (if isRoot then set_add (rootNodeNames g) (node_name node)
                         else rootNodeNames g),
       edgeIndex := index_edges (node_name node) (node_edges node) (edgeIndex g)\<rparr>"

definition getNode :: "GQPSchema \<Rightarrow> string \<Rightarrow> GQPNode option" where
  "getNode g n = map_of (nodes g) n"

fun getRootNodes_loop :: "GQPSchema \<Rightarrow> string list \<Rightarrow> GQPNode list" where
  "getRootNodes_loop g [] = []"
| "getRootNodes_loop g (n # ns) =
     (case getNode g n of
        Some node \<Rightarrow> node # getRootNodes_loop g ns
      | None \<Rightarrow> getRootNodes_loop g ns)"

definition getRootNodes :: "GQPSchema \<Rightarrow> GQPNode list" where
  "getRootNodes g = getRootNodes_loop g (rootNodeNames g)"

definition getNodeCount :: "GQPSchema \<Rightarrow> nat" where
  "getNodeCount g = length (nodes g)"

text \<open>
  A JavaScript number is a finite real or one of the three values that
  \<^verbatim>\<open>Number.isFinite\<close> rejects.
\<close>

datatype jsnum = Finite real | PosInfinity | NegInfinity | NaN

text \<open>
  \<^verbatim>\<open>count >= limit\<close> and \<^verbatim>\<open>age > limit\<close> for a count (the length of an array, the size of a
  map) or an age in milliseconds and a number: every comparison with \<^verbatim>\<open>NaN\<close> is false.
\<close>

fun count_ge :: "nat \<Rightarrow> jsnum \<Rightarrow> bool" where
  "count_ge k (Finite x) = (real k \<ge> x)"
| "count_ge k PosInfinity = False"
| "count_ge k NegInfinity = True"
| "count_ge k NaN = False"

fun age_gt :: "int \<Rightarrow> jsnum \<Rightarrow> bool" where
  "age_gt a (Finite x) = (real_of_int a > x)"
| "age_gt a PosInfinity = False"
| "age_gt a NegInfinity = True"
| "age_gt a NaN = False"

text \<open>
  \<^verbatim>\<open>Array.prototype.slice(0, n)\<close>: \<open>n\<close> is truncated towards zero, \<^verbatim>\<open>NaN\<close> counting as zero;
  a negative end counts from the end of the array.
\<close>

fun slice0 :: "'a list \<Rightarrow> jsnum \<Rightarrow> 'a list" where
  "slice0 xs (Finite n) =
     (let k = (if n < 0 then \<lceil>n\<rceil> else \<lfloor>n\<rfloor>)
      in if k < 0 then take (nat (int (length xs) + k)) xs else take (nat k) xs)"
| "slice0 xs PosInfinity = xs"
| "slice0 xs NegInfinity = []"
| "slice0 xs NaN = []"

definition edgeTargets :: "GQPSchema \<Rightarrow> string \<Rightarrow> string list" where
  "edgeTargets g n = (case map_of (edgeIndex g) n of Some ts \<Rightarrow> ts | None \<Rightarrow> [])"

text \<open>
  The first loop of \<^verbatim>\<open>getNeighbors\<close>, over the targets that the edge index holds for the
  node.
\<close>

fun forward_loop :: "GQPSchema \<Rightarrow> jsnum \<Rightarrow> string list \<Rightarrow> GQPNode list \<Rightarrow> GQPNode list" where
  "forward_loop g limit [] acc = acc"
| "forward_loop g limit (t # ts) acc =
     (if count_ge (length acc) limit then acc
      else (case getNode g t of
              Some targetNode \<Rightarrow> forward_loop g limit ts (acc @ [targetNode])
            | None \<Rightarrow> forward_loop g limit ts acc))"

text \<open>
  The second loop, over every entry of the edge index. \<^verbatim>\<open>neighbors.includes(sourceNode)\<close>
  compares object identities; a node object is stored under its own name, so two stored
  objects are the same object exactly when they are equal as values.
\<close>

fun reverse_loop :: "GQPSchema \<Rightarrow> string \<Rightarrow> jsnum \<Rightarrow> (string \<times> string list) list
    \<Rightarrow> GQPNode list \<Rightarrow> GQPNode list" where
  "reverse_loop g nodeName limit [] acc = acc"
| "reverse_loop g nodeName limit ((sourceNodeName, targets) # rest) acc =
     (if count_ge (length acc) limit then acc
      else if nodeName \<in> set targets \<and> sourceNodeName \<noteq> nodeName then
        (case getNode g sourceNodeName of
           Some sourceNode \<Rightarrow>
             (if sourceNode \<notin> set acc
              then reverse_loop g nodeName limit rest (acc @ [sourceNode])
              else reverse_loop g nodeName limit rest acc)
         | None \<Rightarrow> reverse_loop g nodeName limit rest acc)
      else reverse_loop g nodeName limit rest acc)"

definition getNeighbors :: "GQPSchema \<Rightarrow> string \<Rightarrow> jsnum \<Rightarrow> GQPNode list" where
  "getNeighbors g nodeName limit =
     (case getNode g nodeName of
        None \<Rightarrow> []
      | Some node \<Rightarrow>
          slice0 (reverse_loop g nodeName limit (edgeIndex g)
                    (forward_loop g limit (edgeTargets g nodeName) [])) limit)"

definition getEdge :: "GQPSchema \<Rightarrow> string \<Rightarrow> string \<Rightarrow> GQPEdge option" where
  "getEdge g from to =
     (case getNode g from of
        None \<Rightarrow> None
      | Some node \<Rightarrow> find (\<lambda>e. edge_to e = to) (node_edges node))"

section \<open>Navigation cursor (\<^verbatim>\<open>cursor.ts\<close>)\<close>

text \<open>
  The cursor object together with the \<^verbatim>\<open>maxPathLength\<close> of its owner. The schema is a
  shared object and is passed to every operation. \<^verbatim>\<open>currentNode\<close> is \<^verbatim>\<open>string | null\<close>.
\<close>

record GQPCursor =
  cursor_id :: string
  currentNode :: "string option"
  neighbors :: "string list"
  path :: "string list"
  depth :: int
  createdAt :: int
  totalNodes :: nat
  exploredNodes :: nat
  maxPathLength :: int

datatype GQPAction = explore | navigate | query | introspect

record NeighborView =
  nv_name :: string
  nv_description :: "string option"
  nv_relation :: RelationType
  nv_distance :: nat

record NeighborhoodView =
  view_currentNode :: "GQPNode option"
  view_neighbors :: "NeighborView list"
  view_path :: "string list"
  view_depth :: int
  availableActions :: "GQPAction list"

text \<open>
  JavaScript truthiness of an optional string: \<^verbatim>\<open>undefined\<close>, \<^verbatim>\<open>null\<close> and the empty
  string are falsy.
\<close>

fun truthy :: "string option \<Rightarrow> bool" where
  "truthy None = False"
| "truthy (Some s) = (s \<noteq> [])"

definition updateNeighbors :: "GQPSchema \<Rightarrow> GQPCursor \<Rightarrow> GQPCursor" where
  "updateNeighbors g c =
     (case currentNode c of
        Some n \<Rightarrow>
          (if n \<noteq> [] then c\<lparr>neighbors := map node_name (getNeighbors g n (Finite 5))\<rparr>
           else c\<lparr>neighbors := map node_name (getRootNodes g)\<rparr>)
      | None \<Rightarrow> c\<lparr>neighbors := map node_name (getRootNodes g)\<rparr>)"

text \<open>
  The constructor. The identifier and the clock reading come from \<^verbatim>\<open>Math.random\<close> and
  \<^verbatim>\<open>Date.now\<close> and are parameters here.
\<close>

definition new_cursor :: "GQPSchema \<Rightarrow> string \<Rightarrow> int \<Rightarrow> string option \<Rightarrow> int \<Rightarrow> GQPCursor" where
  "new_cursor g cid now startNode mpl =
     (let c = \<lparr>cursor_id = cid,
                currentNode = (if truthy startNode then startNode else None),
                neighbors = [],
                path = (if truthy startNode then [the startNode] else []),
                depth = (if truthy startNode then 0 else -1),
                createdAt = now,
                totalNodes = getNodeCount g,
                exploredNodes = (if truthy startNode then 1 else 0),
                maxPathLength = mpl\<rparr>
      in if truthy startNode then updateNeighbors g c else c)"

definition getNeighborhood :: "GQPSchema \<Rightarrow> GQPCursor \<Rightarrow> jsnum \<Rightarrow> NeighborhoodView" where
  "getNeighborhood g c sz =
     (case (if truthy (currentNode c) then getNode g (the (currentNode c)) else None) of
        None \<Rightarrow>
          \<lparr>view_currentNode = None,
           view_neighbors =
             map (\<lambda>n. \<lparr>nv_name = node_name n, nv_description = description n,
                        nv_relation = hasMany, nv_distance = 1\<rparr>)
                 (slice0 (getRootNodes g) sz),
           view_path = [], view_depth = -1,
           availableActions = [explore, navigate, introspect]\<rparr>
      | Some cur \<Rightarrow>
          \<lparr>view_currentNode = Some cur,
           view_neighbors =
             map (\<lambda>n. \<lparr>nv_name = node_name n, nv_description = description n,
                        nv_relation =
                          (case getEdge g (the (currentNode c)) (node_name n) of
                             Some e \<Rightarrow> relation e | None \<Rightarrow> hasMany),
                        nv_distance = 1\<rparr>)
                 (getNeighbors g (the (currentNode c)) sz),
           view_path = path c, view_depth = depth c,
           availableActions =
             [navigate, query] @ (if length (path c) > 1 then [explore] else [])\<rparr>)"

text \<open>\<^verbatim>\<open>Array.prototype.shift\<close> on an empty array does nothing, as \<^const>\<open>tl\<close> on \<open>[]\<close>.\<close>

definition navigateTo :: "GQPSchema \<Rightarrow> GQPCursor \<Rightarrow> string
    \<Rightarrow> GQPError + (GQPCursor \<times> NeighborhoodView)" where
  "navigateTo g c nodeName =
     (case getNode g nodeName of
        None \<Rightarrow> Inl (GQPError NODE_NOT_FOUND nodeName [])
      | Some node \<Rightarrow>
          (let c1 = c\<lparr>currentNode := Some nodeName, depth := int (length (path c))\<rparr>;
               shifted = (if int (length (path c1)) \<ge> maxPathLength c1
                          then tl (path c1) else path c1);
               pushed = shifted @ [nodeName];
               c2 = c1\<lparr>path := pushed, exploredNodes := length (remdups pushed)\<rparr>;
               c3 = updateNeighbors g c2
           in Inr (c3, getNeighborhood g c3 (Finite 5))))"

text \<open>
  \<^verbatim>\<open>goBack\<close> is only past its guard when the path has at least two entries, so the
  entry read after \<^verbatim>\<open>pop\<close> exists; \<^verbatim>\<open>previousNode || null\<close> turns an empty name into
  \<^verbatim>\<open>null\<close>.
\<close>

definition goBack :: "GQPSchema \<Rightarrow> GQPCursor \<Rightarrow> GQPCursor \<times> NeighborhoodView option" where
  "goBack g c =
     (if length (path c) \<le> 1 then (c, None)
      else
        (let popped = butlast (path c);
             previousNode = last popped;
             c1 = c\<lparr>path := popped,
                    currentNode := (if previousNode \<noteq> [] then Some previousNode else None),
                    depth := max 0 (depth c - 1)\<rparr>;
             c2 = updateNeighbors g c1
         in (c2, Some (getNeighborhood g c2 (Finite 5)))))"

definition reset :: "GQPCursor \<Rightarrow> GQPCursor" where
  "reset c = c\<lparr>currentNode := None, neighbors := [], path := [], depth := -1,
               exploredNodes := 0\<rparr>"

section \<open>Path finding (\<^verbatim>\<open>GQPSchema.findPath\<close>)\<close>

text \<open>
  The inner \<^verbatim>\<open>for\<close> loop over the neighbours of the dequeued node: it returns the path
  (left) as soon as a neighbour is the goal, and otherwise the queue with every neighbour
  pushed (right).
\<close>

fun expand :: "string \<Rightarrow> string list \<Rightarrow> string list \<Rightarrow> (string \<times> string list) list
    \<Rightarrow> string list + (string \<times> string list) list" where
  "expand to pth [] queue = Inr queue"
| "expand to pth (neighbor # rest) queue =
     (let newPath = pth @ [neighbor]
      in if neighbor = to then Inl newPath
         else expand to pth rest (queue @ [(neighbor, newPath)]))"

text \<open>The \<^verbatim>\<open>while (queue.length > 0)\<close> loop; \<^verbatim>\<open>null\<close> is \<open>None\<close>.\<close>

function bfs_loop :: "GQPSchema \<Rightarrow> string \<Rightarrow> int \<Rightarrow> string set
    \<Rightarrow> (string \<times> string list) list \<Rightarrow> string list option" where
  "bfs_loop g to maxDepth visited [] = None"
| "bfs_loop g to maxDepth visited ((node, pth) # queue) =
     (if int (length pth) > maxDepth then bfs_loop g to maxDepth visited queue
      else if node \<in> visited then bfs_loop g to maxDepth visited queue
      else (case expand to pth (edgeTargets g node) queue of
              Inl found \<Rightarrow> Some found
            | Inr queue' \<Rightarrow> bfs_loop g to maxDepth (insert node visited) queue'))"
  by pat_completeness auto
termination
proof (relation "measures [\<lambda>(g, to, maxDepth, visited, queue).
                             card (fst ` set (edgeIndex g) - visited),
                           \<lambda>(g, to, maxDepth, visited, queue). length queue]")
  show "wf (measures [\<lambda>(g, to, maxDepth, visited, queue).
                         card (fst ` set (edgeIndex g) - visited),
                       \<lambda>(g, to, maxDepth, visited, queue). length queue])"
    by simp
next
  fix g :: GQPSchema and to :: string and maxDepth :: int and visited :: "string set"
    and node :: string and pth :: "string list" and queue :: "(string \<times> string list) list"
  show "((g, to, maxDepth, visited, queue), (g, to, maxDepth, visited, (node, pth) # queue))
        \<in> measures [\<lambda>(g, to, maxDepth, visited, queue).
                       card (fst ` set (edgeIndex g) - visited),
                     \<lambda>(g, to, maxDepth, visited, queue). length queue]"
    by simp
  show "((g, to, maxDepth, visited, queue), (g, to, maxDepth, visited, (node, pth) # queue))
        \<in> measures [\<lambda>(g, to, maxDepth, visited, queue).
                       card (fst ` set (edgeIndex g) - visited),
                     \<lambda>(g, to, maxDepth, visited, queue). length queue]"
    by simp
  fix queue' :: "(string \<times> string list) list"
  assume nv: "node \<notin> visited"
    and ex: "expand to pth (edgeTargets g node) queue = Inr queue'"
  show "((g, to, maxDepth, insert node visited, queue'),
         (g, to, maxDepth, visited, (node, pth) # queue))
        \<in> measures [\<lambda>(g, to, maxDepth, visited, queue).
                       card (fst ` set (edgeIndex g) - visited),
                     \<lambda>(g, to, maxDepth, visited, queue). length queue]"
  proof (cases "node \<in> fst ` set (edgeIndex g)")
    case True
    have fin: "finite (fst ` set (edgeIndex g) - visited)" by simp
    have "fst ` set (edgeIndex g) - insert node visited
          \<subset> fst ` set (edgeIndex g) - visited"
      using True nv by auto
    then have "card (fst ` set (edgeIndex g) - insert node visited)
               < card (fst ` set (edgeIndex g) - visited)"
      using fin by (rule psubset_card_mono[rotated])
    then show ?thesis by simp
  next
    case False
    then have "map_of (edgeIndex g) node = None"
      by (simp add: map_of_eq_None_iff)
    then have "edgeTargets g node = []" by (simp add: edgeTargets_def)
    with ex have "queue' = queue" by simp
    moreover have "fst ` set (edgeIndex g) - insert node visited
                   = fst ` set (edgeIndex g) - visited"
      using False by auto
    ultimately show ?thesis by simp
  qed
qed

definition findPath :: "GQPSchema \<Rightarrow> string \<Rightarrow> string \<Rightarrow> int \<Rightarrow> string list option" where
  "findPath g from to maxDepth =
     (if from = to then Some [from]
      else if getNode g from = None \<or> getNode g to = None then None
      else bfs_loop g to maxDepth {} [(from, [from])])"

section \<open>Cursor pool (\<^verbatim>\<open>CursorManager\<close>)\<close>

text \<open>
  The pool is a \<^verbatim>\<open>Map\<close> from identifier to cursor object. Times are the integer
  milliseconds of \<^verbatim>\<open>Date.now()\<close>; the capacity and the time to live are JavaScript
  numbers, whole or not.
\<close>

record CursorManager =
  cursors :: "(string \<times> GQPCursor) list"
  maxCursors :: jsnum
  cursorTTL :: jsnum
  cm_maxPathLength :: int

definition new_manager :: "jsnum \<Rightarrow> jsnum \<Rightarrow> int \<Rightarrow> CursorManager" where
  "new_manager mc ttl mpl =
     \<lparr>cursors = [], maxCursors = mc, cursorTTL = ttl, cm_maxPathLength = mpl\<rparr>"

text \<open>
  \<^verbatim>\<open>generateCursorId\<close>: the decimal time stamp and the base-36 random suffix are
  parameters.
\<close>

definition generateCursorId :: "string \<Rightarrow> string \<Rightarrow> string" where
  "generateCursorId stamp rnd = ''cursor_'' @ stamp @ ''_'' @ rnd"

definition isExpired :: "CursorManager \<Rightarrow> int \<Rightarrow> GQPCursor \<Rightarrow> bool" where
  "isExpired m now c = age_gt (now - createdAt c) (cursorTTL m)"

fun evictExpired_loop :: "int \<Rightarrow> jsnum \<Rightarrow> (string \<times> GQPCursor) list
    \<Rightarrow> (string \<times> GQPCursor) list \<Rightarrow> (string \<times> GQPCursor) list" where
  "evictExpired_loop now ttl [] cs = cs"
| "evictExpired_loop now ttl ((cid, c) # rest) cs =
     evictExpired_loop now ttl rest
       (if age_gt (now - createdAt c) ttl then AList.delete cid cs else cs)"

definition evictExpired :: "CursorManager \<Rightarrow> int \<Rightarrow> CursorManager" where
  "evictExpired m now =
     m\<lparr>cursors := evictExpired_loop now (cursorTTL m) (cursors m) (cursors m)\<rparr>"

text \<open>
  The scan of \<^verbatim>\<open>evictOldest\<close>. \<^verbatim>\<open>oldestTime\<close> starts at \<^verbatim>\<open>Infinity\<close>, which is \<open>None\<close>
  here: every creation time is below it.
\<close>

fun evictOldest_loop :: "(string \<times> GQPCursor) list \<Rightarrow> string option \<Rightarrow> int option
    \<Rightarrow> string option" where
  "evictOldest_loop [] oldestId oldestTime = oldestId"
| "evictOldest_loop ((cid, c) # rest) oldestId oldestTime =
     (if (case oldestTime of None \<Rightarrow> True | Some t \<Rightarrow> createdAt c < t)
      then evictOldest_loop rest (Some cid) (Some (createdAt c))
      else evictOldest_loop rest oldestId oldestTime)"

definition evictOldest :: "CursorManager \<Rightarrow> CursorManager" where
  "evictOldest m =
     (let oldestId = evictOldest_loop (cursors m) None None
      in if truthy oldestId then m\<lparr>cursors := AList.delete (the oldestId) (cursors m)\<rparr>
         else m)"

definition pool_size :: "CursorManager \<Rightarrow> nat" where
  "pool_size m = length (cursors m)"

text \<open>
  \<^verbatim>\<open>create\<close>: \<open>now\<close> is the clock read by the sweep, \<open>ctime\<close> the one read by the
  constructor.
\<close>

definition create :: "CursorManager \<Rightarrow> GQPSchema \<Rightarrow> int \<Rightarrow> string \<Rightarrow> string \<Rightarrow> int
    \<Rightarrow> string option \<Rightarrow> CursorManager \<times> GQPCursor" where
  "create m g now stamp rnd ctime startNode =
     (let m1 = evictExpired m now;
          m2 = (if count_ge (pool_size m1) (maxCursors m1) then evictOldest m1 else m1);
          c = new_cursor g (generateCursorId stamp rnd) ctime startNode (cm_maxPathLength m2)
      in (m2\<lparr>cursors := AList.update (cursor_id c) c (cursors m2)\<rparr>, c))"


section \<open>Input validation (\<^verbatim>\<open>validation.ts\<close>)\<close>

text \<open>
  Raw values of type \<^verbatim>\<open>unknown\<close>: the JSON values and \<^verbatim>\<open>undefined\<close>. An object is the
  list of its own entries in the order of \<^verbatim>\<open>Object.entries\<close>.
\<close>

datatype json =
  JUndefined | JNull | JBool bool | JNum real | JStr string
  | JArr "json list" | JObj "(string \<times> json) list"

record ValidationConfig =
  strictNodeNames :: bool
  nodeNamePattern :: "string \<Rightarrow> bool"
  allowedFilterOperators :: "string list"
  maxArrayInFilter :: int
  maxFilterDepth :: int
  maxQueryLength :: int

text \<open>The regular expression \<^verbatim>\<open>/^[a-zA-Z_][a-zA-Z0-9_]*$/\<close> as a predicate.\<close>

definition ident_start :: "char \<Rightarrow> bool" where
  "ident_start c =
     (c \<in> set ''abcdefghijklmnopqrstuvwxyzABCDEFGHIJKLMNOPQRSTUVWXYZ_'')"

definition ident_char :: "char \<Rightarrow> bool" where
  "ident_char c = (ident_start c \<or> c \<in> set ''0123456789'')"

definition identifier_pattern :: "string \<Rightarrow> bool" where
  "identifier_pattern s =
     (case s of [] \<Rightarrow> False | c # cs \<Rightarrow> ident_start c \<and> list_all ident_char cs)"

definition DEFAULT_VALIDATION :: ValidationConfig where
  "DEFAULT_VALIDATION =
     \<lparr>strictNodeNames = True,
      nodeNamePattern = identifier_pattern,
      allowedFilterOperators =
        [''equals'', ''not'', ''in'', ''notIn'', ''lt'', ''lte'', ''gt'', ''gte'',
         ''contains'', ''startsWith'', ''endsWith'', ''mode'', ''search''],
      maxArrayInFilter = 100,
      maxFilterDepth = 5,
      maxQueryLength = 1000\<rparr>"

definition validation_error :: "string \<Rightarrow> string \<Rightarrow> GQPError" where
  "validation_error field msg = GQPError VALIDATION_ERROR field msg"

definition depth_error :: GQPError where
  "depth_error = validation_error ''filters'' ''exceeds maximum depth''"

definition logical_keys :: "string list" where
  "logical_keys = [''AND'', ''OR'', ''NOT'']"

text \<open>
  \<^verbatim>\<open>Object.entries\<close> of an array: the decimal indices paired with the elements.
\<close>

function string_of_nat :: "nat \<Rightarrow> string" where
  "string_of_nat n =
     (if n < 10 then [char_of (48 + n)]
      else string_of_nat (n div 10) @ [char_of (48 + n mod 10)])"
  by pat_completeness auto
termination
  by (relation "measure id") auto

fun array_entries :: "nat \<Rightarrow> json list \<Rightarrow> (string \<times> json) list" where
  "array_entries i [] = []"
| "array_entries i (v # vs) = (string_of_nat i, v) # array_entries (Suc i) vs"

text \<open>The measure of the recursion through nested values.\<close>

fun jsize :: "json \<Rightarrow> nat"
  and jsize_list :: "json list \<Rightarrow> nat"
  and jsize_entries :: "(string \<times> json) list \<Rightarrow> nat" where
  "jsize JUndefined = 0"
| "jsize JNull = 0"
| "jsize (JBool b) = 0"
| "jsize (JNum r) = 0"
| "jsize (JStr s) = 0"
| "jsize (JArr vs) = Suc (jsize_list vs)"
| "jsize (JObj es) = Suc (jsize_entries es)"
| "jsize_list [] = 0"
| "jsize_list (v # vs) = Suc (jsize v + jsize_list vs)"
| "jsize_entries [] = 0"
| "jsize_entries (e # es) = Suc (jsize (snd e) + jsize_entries es)"

lemma jsize_array_entries: "jsize_entries (array_entries i vs) = jsize_list vs"
  by (induction vs arbitrary: i) auto

text \<open>
  \<^verbatim>\<open>validateFilters\<close> with the loop over its entries (\<open>validateFilters_loop\<close>, the
  object under construction as accumulator), the loop of \<^verbatim>\<open>validateNestedFilter\<close>
  (\<open>validateNestedFilter\<close>, called with the entries of the operator object and the empty
  accumulator) and the \<^verbatim>\<open>value.map\<close> over the members of a logical array.
\<close>

text \<open>
  \<^verbatim>\<open>obj[key] = value\<close> on an object made by the literal \<^verbatim>\<open>{}\<close>. The key \<^verbatim>\<open>__proto__\<close>
  reaches the setter inherited from \<^verbatim>\<open>Object.prototype\<close>, which adds no entry of its own to
  the object; every other key is set or overwritten in place.
\<close>

definition js_assign :: "string \<Rightarrow> json \<Rightarrow> (string \<times> json) list \<Rightarrow> (string \<times> json) list" where
  "js_assign key v obj = (if key = ''__proto__'' then obj else AList.update key v obj)"

function validateFilters :: "ValidationConfig \<Rightarrow> json \<Rightarrow> int \<Rightarrow> GQPError + json"
  and validateFilters_loop :: "ValidationConfig \<Rightarrow> (string \<times> json) list \<Rightarrow> int
        \<Rightarrow> (string \<times> json) list \<Rightarrow> GQPError + (string \<times> json) list"
  and validateNestedFilter :: "ValidationConfig \<Rightarrow> string \<Rightarrow> (string \<times> json) list \<Rightarrow> int
        \<Rightarrow> (string \<times> json) list \<Rightarrow> GQPError + (string \<times> json) list"
  and validateFilters_map :: "ValidationConfig \<Rightarrow> json list \<Rightarrow> int \<Rightarrow> GQPError + json list"
  where
  "validateFilters cfg filters dep =
     (case filters of
        JUndefined \<Rightarrow> Inr (JObj [])
      | JNull \<Rightarrow> Inr (JObj [])
      | JObj es \<Rightarrow>
          (if dep > maxFilterDepth cfg then Inl depth_error
           else (case validateFilters_loop cfg es dep [] of
                   Inl e \<Rightarrow> Inl e
                 | Inr validated \<Rightarrow> Inr (JObj validated)))
      | _ \<Rightarrow> Inl (validation_error ''filters'' ''must be an object''))"
| "validateFilters_loop cfg [] dep validated = Inr validated"
| "validateFilters_loop cfg (entry # rest) dep validated =
     (if strictNodeNames cfg \<and> \<not> identifier_pattern (fst entry)
         \<and> fst entry \<notin> set logical_keys
      then validateFilters_loop cfg rest dep validated
      else (case snd entry of
              JArr vs \<Rightarrow>
                (if int (length vs) > maxArrayInFilter cfg
                 then Inl (validation_error (''filters.'' @ fst entry)
                             ''array exceeds maximum length'')
                 else validateFilters_loop cfg rest dep
                        (js_assign (fst entry) (JArr vs) validated))
            | JObj es \<Rightarrow>
                (case validateNestedFilter cfg (fst entry) es dep [] of
                   Inl e \<Rightarrow> Inl e
                 | Inr nested \<Rightarrow>
                     validateFilters_loop cfg rest dep
                       (js_assign (fst entry) (JObj nested) validated))
            | v \<Rightarrow> validateFilters_loop cfg rest dep (js_assign (fst entry) v validated)))"
| "validateNestedFilter cfg parentKey [] dep validated = Inr validated"
| "validateNestedFilter cfg parentKey (entry # rest) dep validated =
     (if fst entry \<in> set (allowedFilterOperators cfg) then
        (case snd entry of
           JArr vs \<Rightarrow>
             (if int (length vs) > maxArrayInFilter cfg
              then Inl (validation_error (''filters.'' @ parentKey @ ''.'' @ fst entry)
                          ''array exceeds maximum length'')
              else validateNestedFilter cfg parentKey rest dep
                     (js_assign (fst entry) (JArr vs) validated))
         | v \<Rightarrow> validateNestedFilter cfg parentKey rest dep
                  (js_assign (fst entry) v validated))
      else if fst entry \<in> set logical_keys then
        (case snd entry of
           JArr vs \<Rightarrow>
             (case validateFilters_map cfg vs (dep + 1) of
                Inl e \<Rightarrow> Inl e
              | Inr ws \<Rightarrow> validateNestedFilter cfg parentKey rest dep
                           (js_assign (fst entry) (JArr ws) validated))
         | v \<Rightarrow>
             (case validateFilters cfg v (dep + 1) of
                Inl e \<Rightarrow> Inl e
              | Inr w \<Rightarrow> validateNestedFilter cfg parentKey rest dep
                          (js_assign (fst entry) w validated)))
      else
        (case snd entry of
           JObj es \<Rightarrow>
             (case validateNestedFilter cfg (parentKey @ ''.'' @ fst entry) es (dep + 1) [] of
                Inl e \<Rightarrow> Inl e
              | Inr nested \<Rightarrow> validateNestedFilter cfg parentKey rest dep
                               (js_assign (fst entry) (JObj nested) validated))
         | JArr vs \<Rightarrow>
             (case validateNestedFilter cfg (parentKey @ ''.'' @ fst entry)
                     (array_entries 0 vs) (dep + 1) [] of
                Inl e \<Rightarrow> Inl e
              | Inr nested \<Rightarrow> validateNestedFilter cfg parentKey rest dep
                               (js_assign (fst entry) (JObj nested) validated))
         | v \<Rightarrow> validateNestedFilter cfg parentKey rest dep
                  (js_assign (fst entry) v validated)))"
| "validateFilters_map cfg [] dep = Inr []"
| "validateFilters_map cfg (v # vs) dep =
     (case validateFilters cfg v dep of
        Inl e \<Rightarrow> Inl e
      | Inr w \<Rightarrow>
          (case validateFilters_map cfg vs dep of
             Inl e \<Rightarrow> Inl e
           | Inr ws \<Rightarrow> Inr (w # ws)))"
  by pat_completeness auto
termination
  by (relation "measure (\<lambda>x. case x of
          Inl (Inl (cfg, v, d)) \<Rightarrow> 2 * jsize v + 1
        | Inl (Inr (cfg, es, d, acc)) \<Rightarrow> 2 * jsize_entries es
        | Inr (Inl (cfg, pk, es, d, acc)) \<Rightarrow> 2 * jsize_entries es
        | Inr (Inr (cfg, vs, d)) \<Rightarrow> 2 * jsize_list vs)")
     (auto simp: jsize_array_entries)

text \<open>
  The remaining validators and \<^verbatim>\<open>validateToolCallParams\<close>. The raw parameters are an
  object whose properties are raw values, \<^verbatim>\<open>undefined\<close> when missing. Strings are ASCII:
  \<^verbatim>\<open>trim\<close> removes the ASCII white space.
\<close>

definition is_space :: "char \<Rightarrow> bool" where
  "is_space c = (c \<in> set [CHR '' '', CHR 0x09, CHR 0x0A, CHR 0x0B, CHR 0x0C, CHR 0x0D])"

definition trim :: "string \<Rightarrow> string" where
  "trim s = rev (dropWhile is_space (rev (dropWhile is_space s)))"

definition validateNodeName :: "ValidationConfig \<Rightarrow> json \<Rightarrow> GQPError + string" where
  "validateNodeName cfg node =
     (case node of
        JUndefined \<Rightarrow> Inl (GQPError NODE_REQUIRED ''navigate/query'' [])
      | JNull \<Rightarrow> Inl (GQPError NODE_REQUIRED ''navigate/query'' [])
      | JStr s \<Rightarrow>
          (let trimmed = trim s
           in if trimmed = [] then Inl (GQPError NODE_REQUIRED ''navigate/query'' [])
              else if strictNodeNames cfg \<and> \<not> nodeNamePattern cfg trimmed
              then Inl (GQPError INVALID_NODE trimmed [])
              else Inr trimmed)
      | _ \<Rightarrow> Inl (validation_error ''node'' ''must be a string''))"

definition validateAction :: "json \<Rightarrow> GQPError + GQPAction" where
  "validateAction action =
     (case action of
        JStr s \<Rightarrow>
          (if s = [] then Inl (validation_error ''action'' ''is required and must be a string'')
           else if s = ''explore'' then Inr explore
           else if s = ''navigate'' then Inr navigate
           else if s = ''query'' then Inr query
           else if s = ''introspect'' then Inr introspect
           else Inl (GQPError INVALID_ACTION s []))
      | _ \<Rightarrow> Inl (validation_error ''action'' ''is required and must be a string''))"

definition validateQuery :: "ValidationConfig \<Rightarrow> json \<Rightarrow> GQPError + string option" where
  "validateQuery cfg qry =
     (case qry of
        JUndefined \<Rightarrow> Inr None
      | JNull \<Rightarrow> Inr None
      | JStr s \<Rightarrow>
          (if int (length s) > maxQueryLength cfg
           then Inl (validation_error ''query'' ''exceeds maximum length'')
           else Inr (Some s))
      | _ \<Rightarrow> Inl (validation_error ''query'' ''must be a string''))"

definition validateCursorId :: "json \<Rightarrow> GQPError + string option" where
  "validateCursorId cursorId =
     (case cursorId of
        JUndefined \<Rightarrow> Inr None
      | JNull \<Rightarrow> Inr None
      | JStr s \<Rightarrow> Inr (Some s)
      | _ \<Rightarrow> Inl (validation_error ''cursorId'' ''must be a string''))"

record RawParams =
  raw_action :: json
  raw_node :: json
  raw_query :: json
  raw_filters :: json
  raw_cursorId :: json

record ToolCallParams =
  tc_action :: GQPAction
  tc_node :: "string option"
  tc_query :: "string option"
  tc_filters :: "json option"
  tc_cursorId :: "string option"

text \<open>
  \<^verbatim>\<open>validateToolCallParams\<close> without its \<^verbatim>\<open>options\<close> step, which never throws and touches
  no other property.
\<close>

definition validateToolCallParams :: "ValidationConfig \<Rightarrow> RawParams
    \<Rightarrow> GQPError + ToolCallParams" where
  "validateToolCallParams cfg p =
     (case validateAction (raw_action p) of
        Inl e \<Rightarrow> Inl e
      | Inr action \<Rightarrow>
          (case (if action = navigate \<or> action = query \<or> raw_node p \<noteq> JUndefined
                 then (case validateNodeName cfg (raw_node p) of
                         Inl e \<Rightarrow> Inl e | Inr n \<Rightarrow> Inr (Some n))
                 else Inr None) of
             Inl e \<Rightarrow> Inl e
           | Inr node \<Rightarrow>
               (case (if raw_query p \<noteq> JUndefined then validateQuery cfg (raw_query p)
                      else Inr None) of
                  Inl e \<Rightarrow> Inl e
                | Inr qry \<Rightarrow>
                    (case (if raw_filters p \<noteq> JUndefined
                           then (case validateFilters cfg (raw_filters p) 0 of
                                   Inl e \<Rightarrow> Inl e | Inr fs \<Rightarrow> Inr (Some fs))
                           else Inr None) of
                       Inl e \<Rightarrow> Inl e
                     | Inr filters \<Rightarrow>
                         (case (if raw_cursorId p \<noteq> JUndefined
                                then validateCursorId (raw_cursorId p) else Inr None) of
                            Inl e \<Rightarrow> Inl e
                          | Inr cursorId \<Rightarrow>
                              Inr \<lparr>tc_action = action, tc_node = node, tc_query = qry,
                                   tc_filters = filters, tc_cursorId = cursorId\<rparr>)))))"

text \<open>
  How deep a raw value nests containers below itself: a flat object or array is at depth
  \<open>0\<close>, as \<^verbatim>\<open>validateFilters\<close> counts its argument.
\<close>

fun nesting :: "json \<Rightarrow> nat"
  and nesting_list :: "json list \<Rightarrow> nat"
  and nesting_entries :: "(string \<times> json) list \<Rightarrow> nat" where
  "nesting JUndefined = 0"
| "nesting JNull = 0"
| "nesting (JBool b) = 0"
| "nesting (JNum r) = 0"
| "nesting (JStr s) = 0"
| "nesting (JArr vs) = Suc (nesting_list vs)"
| "nesting (JObj es) = Suc (nesting_entries es)"
| "nesting_list [] = 0"
| "nesting_list (v # vs) = max (nesting v) (nesting_list vs)"
| "nesting_entries [] = 0"
| "nesting_entries (e # es) = max (nesting (snd e)) (nesting_entries es)"

definition nesting_depth :: "json \<Rightarrow> nat" where
  "nesting_depth v = nesting v - 1"

text \<open>
  A filter on a relation of a relation, eight objects deep:
  \<^verbatim>\<open>{a: {b: {c: {d: {e: {f: {g: {h: 1}}}}}}}}\<close>.
\<close>

definition deep_filters :: json where
  "deep_filters =
     JObj [(''a'', JObj [(''b'', JObj [(''c'', JObj [(''d'', JObj [(''e'', JObj [(''f'',
       JObj [(''g'', JObj [(''h'', JNum 1)])])])])])])])]"

definition deep_query_call :: RawParams where
  "deep_query_call =
     \<lparr>raw_action = JStr ''query'', raw_node = JStr ''User'', raw_query = JUndefined,
      raw_filters = deep_filters, raw_cursorId = JUndefined\<rparr>"

section \<open>Security gate (\<^verbatim>\<open>security.ts\<close>)\<close>

text \<open>
  A callback that the code guards with \<^verbatim>\<open>try\<close>/\<^verbatim>\<open>catch\<close> either returns or throws.
  Filters are the entries of a \<^verbatim>\<open>QueryFilters\<close> object.
\<close>

datatype 'a js_result = Returns 'a | Throws

type_synonym QueryFilters = "(string \<times> json) list"

record SecurityContext =
  userId :: "string option"
  orgId :: "string option"
  roles :: "string list option"

record NodeAccessRule =
  rule_roles :: "string list option"
  rule_actions :: "GQPAction list option"
  rule_check :: "(SecurityContext \<Rightarrow> bool) option"

datatype IntrospectionMode =
  Public | Authenticated | Disabled | Custom "SecurityContext \<Rightarrow> bool"

record SecurityConfig =
  contextProvider :: "SecurityContext js_result option"
  nodeAccess :: "(string \<times> NodeAccessRule) list option"
  rowLevelSecurity :: "(string \<times> (SecurityContext \<Rightarrow> QueryFilters js_result)) list option"
  introspection :: "IntrospectionMode option"
  hiddenFields :: "string list option"
  hiddenNodes :: "string list option"

definition defaultContext :: SecurityContext where
  "defaultContext = \<lparr>userId = None, orgId = None, roles = None\<rparr>"

definition isEnabled :: "SecurityConfig \<Rightarrow> bool" where
  "isEnabled cfg =
     (contextProvider cfg \<noteq> None \<or> nodeAccess cfg \<noteq> None \<or> rowLevelSecurity cfg \<noteq> None
      \<or> introspection cfg \<noteq> None)"

definition getContext :: "SecurityConfig \<Rightarrow> GQPError + SecurityContext" where
  "getContext cfg =
     (case contextProvider cfg of
        None \<Rightarrow> Inr defaultContext
      | Some (Returns c) \<Rightarrow> Inr c
      | Some Throws \<Rightarrow>
          Inl (GQPError AUTHORIZATION_ERROR [] ''Failed to resolve security context''))"

text \<open>\<^verbatim>\<open>ctx || (await this.getContext())\<close>: a context object is truthy.\<close>

definition resolve_context :: "SecurityConfig \<Rightarrow> SecurityContext option
    \<Rightarrow> GQPError + SecurityContext" where
  "resolve_context cfg ctx = (case ctx of Some c \<Rightarrow> Inr c | None \<Rightarrow> getContext cfg)"

text \<open>
  \<^verbatim>\<open>record?.[node] || record?.["*"]\<close> on an optional record of objects, for the entries
  the configuration gives the record. A node name that is a member of \<^verbatim>\<open>Object.prototype\<close>
  (\<^verbatim>\<open>constructor\<close>, \<^verbatim>\<open>toString\<close>, \<^verbatim>\<open>valueOf\<close>, \<^verbatim>\<open>hasOwnProperty\<close>, \<^verbatim>\<open>__proto__\<close> and the
  like) and not an entry of the record finds the inherited member in JavaScript; such
  names are outside this look-up, and nothing below that looks a name up in a configured
  record is stated for them.
\<close>

definition lookup_rule :: "(string \<times> 'a) list option \<Rightarrow> string \<Rightarrow> 'a option" where
  "lookup_rule tbl node =
     (case tbl of
        None \<Rightarrow> None
      | Some t \<Rightarrow> (case map_of t node of Some r \<Rightarrow> Some r | None \<Rightarrow> map_of t ''*''))"

definition accessDenied :: "string \<Rightarrow> GQPError" where
  "accessDenied node = GQPError ACCESS_DENIED node []"

definition checkNodeAccess :: "SecurityConfig \<Rightarrow> string \<Rightarrow> GQPAction
    \<Rightarrow> SecurityContext option \<Rightarrow> GQPError + unit" where
  "checkNodeAccess cfg node action ctx =
     (case resolve_context cfg ctx of
        Inl e \<Rightarrow> Inl e
      | Inr c \<Rightarrow>
          (case lookup_rule (nodeAccess cfg) node of
             None \<Rightarrow> Inr ()
           | Some rule \<Rightarrow>
               (if (case rule_roles rule of
                      Some rs \<Rightarrow>
                        length rs > 0
                        \<and> \<not> list_ex (\<lambda>role. role \<in> set (case roles c of Some us \<Rightarrow> us
                                                              | None \<Rightarrow> [])) rs
                    | None \<Rightarrow> False)
                then Inl (accessDenied node)
                else if (case rule_actions rule of
                           Some acts \<Rightarrow> length acts > 0 \<and> action \<notin> set acts
                         | None \<Rightarrow> False)
                then Inl (accessDenied node)
                else if (case rule_check rule of Some chk \<Rightarrow> \<not> chk c | None \<Rightarrow> False)
                then Inl (accessDenied node)
                else Inr ())))"

definition getRLSFilters :: "SecurityConfig \<Rightarrow> string \<Rightarrow> SecurityContext option
    \<Rightarrow> GQPError + QueryFilters" where
  "getRLSFilters cfg node ctx =
     (case resolve_context cfg ctx of
        Inl e \<Rightarrow> Inl e
      | Inr c \<Rightarrow>
          (case lookup_rule (rowLevelSecurity cfg) node of
             None \<Rightarrow> Inr []
           | Some rlsFn \<Rightarrow>
               (case rlsFn c of
                  Returns fs \<Rightarrow> Inr fs
                | Throws \<Rightarrow>
                    Inl (GQPError AUTHORIZATION_ERROR node
                           ''Failed to compute row-level security''))))"

definition applyRLS :: "SecurityConfig \<Rightarrow> string \<Rightarrow> QueryFilters \<Rightarrow> SecurityContext option
    \<Rightarrow> GQPError + QueryFilters" where
  "applyRLS cfg node filters ctx =
     (case getRLSFilters cfg node ctx of
        Inl e \<Rightarrow> Inl e
      | Inr rlsFilters \<Rightarrow>
          (if length rlsFilters = 0 then Inr filters
           else if length filters = 0 then Inr rlsFilters
           else Inr [(''AND'', JArr [JObj filters, JObj rlsFilters])]))"

definition checkIntrospectionAccess :: "SecurityConfig \<Rightarrow> SecurityContext option
    \<Rightarrow> GQPError + unit" where
  "checkIntrospectionAccess cfg ctx =
     (case (case introspection cfg of Some m \<Rightarrow> m | None \<Rightarrow> Public) of
        Public \<Rightarrow> Inr ()
      | mode \<Rightarrow>
          (case resolve_context cfg ctx of
             Inl e \<Rightarrow> Inl e
           | Inr c \<Rightarrow>
               (case mode of
                  Disabled \<Rightarrow> Inl (GQPError INTROSPECTION_DISABLED [] [])
                | Authenticated \<Rightarrow>
                    (if truthy (userId c) then Inr ()
                     else Inl (GQPError AUTHORIZATION_ERROR []
                                 ''Authentication required for schema introspection''))
                | Custom allowed \<Rightarrow>
                    (if allowed c then Inr ()
                     else Inl (GQPError INTROSPECTION_DISABLED [] []))
                | Public \<Rightarrow> Inr ())))"

text \<open>
  \<^verbatim>\<open>matchPattern\<close>. A pattern equal to the name matches; a pattern without \<^verbatim>\<open>*\<close> matches
  nothing else; otherwise the pattern is compiled to an anchored, case-insensitive regular
  expression in which every \<^verbatim>\<open>*\<close> is \<^verbatim>\<open>.*\<close> and every other character is literal.
  \<open>star_match\<close> is the language of that expression, for ASCII names: \<^verbatim>\<open>.\<close> matches
  any character but a line terminator.
\<close>

definition lower_char :: "char \<Rightarrow> char" where
  "lower_char c =
     (case map_of (zip ''ABCDEFGHIJKLMNOPQRSTUVWXYZ'' ''abcdefghijklmnopqrstuvwxyz'') c of
        Some l \<Rightarrow> l | None \<Rightarrow> c)"

definition line_terminator :: "char \<Rightarrow> bool" where
  "line_terminator c = (c = CHR 0x0A \<or> c = CHR 0x0D)"

fun star_match :: "string \<Rightarrow> string \<Rightarrow> bool" where
  "star_match [] nm = (nm = [])"
| "star_match (p # ps) nm =
     (if p = CHR ''*'' then
        star_match ps nm
        \<or> (case nm of [] \<Rightarrow> False
            | c # cs \<Rightarrow> \<not> line_terminator c \<and> star_match (p # ps) cs)
      else (case nm of [] \<Rightarrow> False
            | c # cs \<Rightarrow> lower_char p = lower_char c \<and> star_match ps cs))"

definition matchPattern :: "string \<Rightarrow> string \<Rightarrow> bool" where
  "matchPattern nm pattern =
     (if pattern = nm then True
      else if CHR ''*'' \<notin> set pattern then False
      else star_match pattern nm)"

definition isFieldHidden :: "SecurityConfig \<Rightarrow> string \<Rightarrow> bool" where
  "isFieldHidden cfg fieldName =
     list_ex (matchPattern fieldName)
       (case hiddenFields cfg of Some ps \<Rightarrow> ps | None \<Rightarrow> [])"

definition isNodeHidden :: "SecurityConfig \<Rightarrow> string \<Rightarrow> bool" where
  "isNodeHidden cfg nodeName =
     (nodeName \<in> set (case hiddenNodes cfg of Some ns \<Rightarrow> ns | None \<Rightarrow> []))"

definition filterHiddenFields :: "SecurityConfig \<Rightarrow> GQPNode \<Rightarrow> GQPNode" where
  "filterHiddenFields cfg node =
     (case hiddenFields cfg of
        None \<Rightarrow> node
      | Some ps \<Rightarrow>
          (if length ps = 0 then node
           else node\<lparr>node_fields :=
                  filter (\<lambda>field. \<not> isFieldHidden cfg (field_name field))
                    (node_fields node)\<rparr>))"

section \<open>Query executor (\<^verbatim>\<open>executor.ts\<close>)\<close>

text \<open>
  The limit and the offset that a caller passes are any JavaScript numbers; the configured
  limits are finite numbers.
\<close>

record QueryOptions =
  opt_limit :: "jsnum option"
  opt_offset :: "jsnum option"
  opt_orderBy :: "(string \<times> string) option"
  opt_include :: "string list option"

record NormalizedOptions =
  norm_limit :: real
  norm_offset :: real
  norm_orderBy :: "(string \<times> string) option"
  norm_include :: "string list"

record ExecutorConfig =
  defaultLimit :: real
  maxLimit :: real
  timeout :: real
  maxIncludeDepth :: "nat option"

definition DEFAULT_CONFIG :: ExecutorConfig where
  "DEFAULT_CONFIG =
     \<lparr>defaultLimit = 10, maxLimit = 100, timeout = 30000, maxIncludeDepth = Some 3\<rparr>"

text \<open>\<^verbatim>\<open>inc.split(".")\<close> and \<^verbatim>\<open>parts.join(".")\<close>.\<close>

fun split_dot :: "string \<Rightarrow> string \<Rightarrow> string list" where
  "split_dot cur [] = [cur]"
| "split_dot cur (c # cs) =
     (if c = CHR ''.'' then cur # split_dot [] cs else split_dot (cur @ [c]) cs)"

fun join_dot :: "string list \<Rightarrow> string" where
  "join_dot [] = []"
| "join_dot [x] = x"
| "join_dot (x # y # ys) = x @ ''.'' @ join_dot (y # ys)"

definition truncate_include :: "nat \<Rightarrow> string \<Rightarrow> string" where
  "truncate_include d inc =
     (let parts = split_dot [] inc
      in if length parts > d then join_dot (take d parts) else inc)"

text \<open>
  \<^verbatim>\<open>normalizeOptions\<close>. A \<^verbatim>\<open>maxIncludeDepth\<close> of zero is falsy and leaves the include
  paths as they are.
\<close>

definition normalizeOptions :: "ExecutorConfig \<Rightarrow> QueryOptions \<Rightarrow> NormalizedOptions" where
  "normalizeOptions cfg options =
     \<lparr>norm_limit =
        (case opt_limit options of
           Some (Finite parsedLimit) \<Rightarrow>
             (if parsedLimit > 0 then min parsedLimit (maxLimit cfg) else defaultLimit cfg)
         | _ \<Rightarrow> defaultLimit cfg),
      norm_offset =
        (case opt_offset options of
           Some (Finite parsedOffset) \<Rightarrow> (if parsedOffset \<ge> 0 then parsedOffset else 0)
         | _ \<Rightarrow> 0),
      norm_orderBy = opt_orderBy options,
      norm_include =
        (case opt_include options of
           None \<Rightarrow> []
         | Some incs \<Rightarrow>
             (case maxIncludeDepth cfg of
                None \<Rightarrow> incs
              | Some d \<Rightarrow> (if d = 0 then incs else map (truncate_include d) incs)))\<rparr>"

record PluginContext =
  ctx_query :: "string option"
  ctx_filters :: QueryFilters
  ctx_options :: QueryOptions

text \<open>
  The external collaborators. A hook is an optional function that resolves with a value
  or rejects with an error. The adapter call races a timer: it resolves, rejects, or is
  still pending when the timer fires.
\<close>

record GQPPlugin =
  onPreQuery :: "(GQPNode \<Rightarrow> QueryFilters \<Rightarrow> PluginContext \<Rightarrow> GQPError + QueryFilters) option"
  onPostQuery :: "(GQPNode \<Rightarrow> json list \<Rightarrow> PluginContext \<Rightarrow> GQPError + json list) option"
  translateFilter :: "(GQPField \<Rightarrow> json \<Rightarrow> PluginContext \<Rightarrow> json option) option"

datatype 'a settled = Resolved 'a | Rejected GQPError | Pending

record GQPAdapter =
  adapter_execute :: "string \<Rightarrow> QueryFilters \<Rightarrow> NormalizedOptions \<Rightarrow> json list settled"
  adapter_count :: "(string \<Rightarrow> QueryFilters \<Rightarrow> real js_result) option"

record QueryResult =
  data :: "json list"
  total :: "real option"
  hasMore :: bool
  executionTimeMs :: int
  nextActions :: "string list"

record QueryExecutor =
  ex_adapters :: "(string \<times> GQPAdapter) list"
  ex_plugins :: "GQPPlugin list"
  ex_config :: ExecutorConfig

fun translateFilters_loop :: "GQPNode \<Rightarrow> (GQPField \<Rightarrow> json \<Rightarrow> PluginContext \<Rightarrow> json option)
    \<Rightarrow> PluginContext \<Rightarrow> QueryFilters \<Rightarrow> QueryFilters \<Rightarrow> QueryFilters" where
  "translateFilters_loop node tf ctx [] translated = translated"
| "translateFilters_loop node tf ctx ((fieldName, v) # rest) translated =
     translateFilters_loop node tf ctx rest
       (case find (\<lambda>f. field_name f = fieldName) (node_fields node) of
          Some field \<Rightarrow>
            (case tf field v ctx of
               Some translatedValue \<Rightarrow> js_assign fieldName translatedValue translated
             | None \<Rightarrow> js_assign fieldName v translated)
        | None \<Rightarrow> js_assign fieldName v translated)"

definition translateFilters :: "GQPNode \<Rightarrow> QueryFilters \<Rightarrow> GQPPlugin \<Rightarrow> PluginContext
    \<Rightarrow> QueryFilters" where
  "translateFilters node filters plugin ctx =
     (case translateFilter plugin of
        Some tf \<Rightarrow> translateFilters_loop node tf ctx filters []
      | None \<Rightarrow> filters)"

text \<open>The first loop over the plugins in \<^verbatim>\<open>execute\<close>.\<close>

fun pre_query_loop :: "GQPNode \<Rightarrow> PluginContext \<Rightarrow> GQPPlugin list \<Rightarrow> QueryFilters
    \<Rightarrow> GQPError + QueryFilters" where
  "pre_query_loop node ctx [] processedFilters = Inr processedFilters"
| "pre_query_loop node ctx (plugin # rest) processedFilters =
     (case (case onPreQuery plugin of
              Some hook \<Rightarrow> hook node processedFilters ctx
            | None \<Rightarrow> Inr processedFilters) of
        Inl e \<Rightarrow> Inl e
      | Inr fs \<Rightarrow>
          pre_query_loop node ctx rest
            (case translateFilter plugin of
               Some tf \<Rightarrow> translateFilters node fs plugin ctx
             | None \<Rightarrow> fs))"


fun post_query_loop :: "GQPNode \<Rightarrow> PluginContext \<Rightarrow> GQPPlugin list \<Rightarrow> json list
    \<Rightarrow> GQPError + json list" where
  "post_query_loop node ctx [] results = Inr results"
| "post_query_loop node ctx (plugin # rest) results =
     (case onPostQuery plugin of
        Some hook \<Rightarrow>
          (case hook node results ctx of
             Inl e \<Rightarrow> Inl e
           | Inr rs \<Rightarrow> post_query_loop node ctx rest rs)
      | None \<Rightarrow> post_query_loop node ctx rest results)"

definition executeWithTimeout :: "'a settled \<Rightarrow> GQPError + 'a" where
  "executeWithTimeout promise =
     (case promise of
        Resolved r \<Rightarrow> Inr r
      | Rejected e \<Rightarrow> Inl e
      | Pending \<Rightarrow> Inl (GQPError TIMEOUT_ERROR ''query'' []))"

definition suggestNextActions :: "ExecutorConfig \<Rightarrow> GQPNode \<Rightarrow> json list \<Rightarrow> string list" where
  "suggestNextActions cfg node results =
     (if length results = 0
      then [''Try a different query or filter'', ''Navigate to a related node'']
      else map (\<lambda>edge. ''Navigate to '' @ edge_to edge @ '' to see related data'')
             (take 2 (node_edges node))
           @ (if real (length results) \<ge> defaultLimit cfg
              then [''Add filters to narrow down results''] else []))"

text \<open>
  \<^verbatim>\<open>execute\<close>. \<open>elapsed\<close> is the difference of the two readings of the clock. The
  missing \<^verbatim>\<open>filters\<close> and \<^verbatim>\<open>options\<close> arguments default to the empty object, which the
  callers here always pass.
\<close>

definition query_context :: "ExecutorConfig \<Rightarrow> QueryFilters \<Rightarrow> QueryOptions \<Rightarrow> PluginContext" where
  "query_context cfg filters options =
     (let normalizedOptions = normalizeOptions cfg options
      in \<lparr>ctx_query = None, ctx_filters = filters,
          ctx_options = \<lparr>opt_limit = Some (Finite (norm_limit normalizedOptions)),
                         opt_offset = Some (Finite (norm_offset normalizedOptions)),
                         opt_orderBy = norm_orderBy normalizedOptions,
                         opt_include = Some (norm_include normalizedOptions)\<rparr>\<rparr>)"

definition execute :: "QueryExecutor \<Rightarrow> GQPSchema \<Rightarrow> int \<Rightarrow> string \<Rightarrow> QueryFilters
    \<Rightarrow> QueryOptions \<Rightarrow> GQPError + QueryResult" where
  "execute ex g elapsed nodeName filters options =
     (case getNode g nodeName of
        None \<Rightarrow> Inl (GQPError NODE_NOT_FOUND nodeName [])
      | Some node \<Rightarrow>
          (case map_of (ex_adapters ex) (source node) of
             None \<Rightarrow> Inl (GQPError ADAPTER_NOT_FOUND nodeName [])
           | Some adapter \<Rightarrow>
               (let normalizedOptions = normalizeOptions (ex_config ex) options;
                    ctx = query_context (ex_config ex) filters options
                in case pre_query_loop node ctx (ex_plugins ex) filters of
                     Inl e \<Rightarrow> Inl e
                   | Inr processedFilters \<Rightarrow>
                       (case executeWithTimeout
                               (adapter_execute adapter nodeName processedFilters
                                  normalizedOptions) of
                          Inl e \<Rightarrow> Inl e
                        | Inr raw \<Rightarrow>
                            (case post_query_loop node ctx (ex_plugins ex) raw of
                               Inl e \<Rightarrow> Inl e
                             | Inr results \<Rightarrow>
                                 Inr \<lparr>data = results,
                                      total =
                                        (case adapter_count adapter of
                                           Some cnt \<Rightarrow>
                                             (case cnt nodeName processedFilters of
                                                Returns t \<Rightarrow> Some t
                                              | Throws \<Rightarrow> None)
                                         | None \<Rightarrow> None),
                                      hasMore =
                                        (real (length results) = norm_limit normalizedOptions),
                                      executionTimeMs = elapsed,
                                      nextActions =
                                        suggestNextActions (ex_config ex) node results\<rparr>)))))"


section \<open>Engine (\<^verbatim>\<open>engine.ts\<close>)\<close>





section \<open>The schema of the test suite\<close>

text \<open>
  The graph the repository's tests and the specification's examples use: \<open>User\<close> has many
  \<open>Order\<close>, \<open>Order\<close> belongs to \<open>User\<close> and has many \<open>Product\<close>.
\<close>

definition mk_edge :: "string \<Rightarrow> string \<Rightarrow> RelationType \<Rightarrow> GQPEdge" where
  "mk_edge nm tgt rel = \<lparr>edge_name = nm, edge_to = tgt, relation = rel\<rparr>"

definition mk_node :: "string \<Rightarrow> GQPEdge list \<Rightarrow> GQPNode" where
  "mk_node nm es =
     \<lparr>node_name = nm, description = None, node_fields = [], node_edges = es,
      capabilities = [], source = ''test''\<rparr>"

definition user_node :: GQPNode where
  "user_node = mk_node ''User'' [mk_edge ''orders'' ''Order'' hasMany]"

definition order_node :: GQPNode where
  "order_node =
     mk_node ''Order'' [mk_edge ''user'' ''User'' belongsTo,
                        mk_edge ''products'' ''Product'' hasMany]"

definition product_node :: GQPNode where
  "product_node = mk_node ''Product'' []"

definition test_schema :: GQPSchema where
  "test_schema =
     addNode (addNode (addNode empty_schema user_node True) order_node True)
       product_node True"

text \<open>
  An adapter for the source \<open>test\<close> that resolves with the given rows and has no
  \<^verbatim>\<open>count\<close>, and an executor with that adapter, no plugin and the default configuration.
\<close>

definition rows_adapter :: "json list \<Rightarrow> GQPAdapter" where
  "rows_adapter rows =
     \<lparr>adapter_execute = (\<lambda>nodeName filters options. Resolved rows), adapter_count = None\<rparr>"

definition test_executor :: "json list \<Rightarrow> QueryExecutor" where
  "test_executor rows =
     \<lparr>ex_adapters = [(''test'', rows_adapter rows)], ex_plugins = [],
      ex_config = DEFAULT_CONFIG\<rparr>"

definition no_options :: QueryOptions where
  "no_options = \<lparr>opt_limit = None, opt_offset = None, opt_orderBy = None, opt_include = None\<rparr>"

definition limit_options :: "real \<Rightarrow> QueryOptions" where
  "limit_options n = no_options\<lparr>opt_limit := Some (Finite n)\<rparr>"

definition no_security :: SecurityConfig where
  "no_security =
     \<lparr>contextProvider = None, nodeAccess = None, rowLevelSecurity = None,
      introspection = None, hiddenFields = None, hiddenNodes = None\<rparr>"



text \<open>
  The pool of the eviction test: capacity three, three cursors created at times \<open>1\<close>,
  \<open>2\<close> and \<open>3\<close>.
\<close>

definition three_pool :: CursorManager where
  "three_pool =
     fst (create (fst (create (fst (create (new_manager (Finite 3) (Finite 1800000) 100)
                                       test_schema 1 ''1'' ''a'' 1 None))
                          test_schema 2 ''2'' ''b'' 2 None))
            test_schema 3 ''3'' ''c'' 3 None)"

section \<open>Counts, limits and the oldest cursor, in the specification's words\<close>

text \<open>
  A count that is at most a limit or a capacity; and a capacity that is a whole number of
  at least one, or \<^verbatim>\<open>Infinity\<close>.
\<close>

fun at_most :: "nat \<Rightarrow> jsnum \<Rightarrow> bool" where
  "at_most k (Finite x) = (real k \<le> x)"
| "at_most k PosInfinity = True"
| "at_most k NegInfinity = False"
| "at_most k NaN = False"

fun whole_at_least_one :: "jsnum \<Rightarrow> bool" where
  "whole_at_least_one (Finite x) = (1 \<le> x \<and> of_int \<lfloor>x\<rfloor> = x)"
| "whole_at_least_one PosInfinity = True"
| "whole_at_least_one NegInfinity = False"
| "whole_at_least_one NaN = False"

text \<open>An entry of the pool is an oldest one when no entry has an earlier creation time.\<close>

definition oldest_in :: "string \<times> GQPCursor \<Rightarrow> (string \<times> GQPCursor) list \<Rightarrow> bool" where
  "oldest_in e es = (e \<in> set es \<and> (\<forall>x \<in> set es. createdAt (snd e) \<le> createdAt (snd x)))"

section \<open>The neighbours of a node, in the specification's words\<close>

text \<open>
  A schema is built from the empty one by calls of \<^verbatim>\<open>addNode\<close>, as \<^verbatim>\<open>fromJSON\<close> does;
  each entry is a node and its \<^verbatim>\<open>isRoot\<close> flag.
\<close>

definition add_nodes :: "(GQPNode \<times> bool) list \<Rightarrow> GQPSchema" where
  "add_nodes ns = foldl (\<lambda>g e. addNode g (fst e) (snd e)) empty_schema ns"

text \<open>
  The targets of the outgoing edges of a node, each once, in the order in which the
  edges of the node first name them; and whether a node has an outgoing edge that targets
  the name \<open>n\<close>.
\<close>

definition out_targets :: "GQPNode \<Rightarrow> string list" where
  "out_targets nd = foldl set_add [] (map edge_to (node_edges nd))"

definition has_edge_to :: "GQPNode \<Rightarrow> string \<Rightarrow> bool" where
  "has_edge_to x n = (n \<in> edge_to ` set (node_edges x))"

text \<open>
  The forward neighbours of a registered name \<open>n\<close>: the registered nodes that the outgoing
  edges of the node of \<open>n\<close> target, in that order. The reverse neighbours: the registered
  nodes other than \<open>n\<close> that have an outgoing edge targeting \<open>n\<close> and are not already a
  forward neighbour, in the order of their registration.
\<close>

definition forward_neighbors :: "GQPSchema \<Rightarrow> string \<Rightarrow> GQPNode list" where
  "forward_neighbors g n =
     (case getNode g n of
        None \<Rightarrow> []
      | Some nd \<Rightarrow> List.map_filter (getNode g) (out_targets nd))"

definition reverse_neighbors :: "GQPSchema \<Rightarrow> string \<Rightarrow> GQPNode list" where
  "reverse_neighbors g n =
     filter (\<lambda>x. node_name x \<noteq> n \<and> has_edge_to x n \<and> x \<notin> set (forward_neighbors g n))
       (map snd (nodes g))"

text \<open>
  A limit that is at least zero, \<^verbatim>\<open>Infinity\<close> included; and the entries of a list from the
  front, as many as the limit admits.
\<close>

fun limit_ge_zero :: "jsnum \<Rightarrow> bool" where
  "limit_ge_zero (Finite x) = (0 \<le> x)"
| "limit_ge_zero PosInfinity = True"
| "limit_ge_zero NegInfinity = False"
| "limit_ge_zero NaN = False"

fun up_to_limit :: "jsnum \<Rightarrow> 'a list \<Rightarrow> 'a list" where
  "up_to_limit (Finite x) xs = take (nat \<lfloor>x\<rfloor>) xs"
| "up_to_limit PosInfinity xs = xs"
| "up_to_limit NegInfinity xs = []"
| "up_to_limit NaN xs = []"

text \<open>A schema with one node that refers to itself: an employee has a manager.\<close>

definition employee_node :: GQPNode where
  "employee_node = mk_node ''Employee'' [mk_edge ''manager'' ''Employee'' belongsTo]"

definition employee_schema :: GQPSchema where
  "employee_schema = addNode empty_schema employee_node True"

text \<open>
  A schema in which a name is registered twice: \<open>Draft\<close> first with an edge to \<open>Tag\<close>, and,
  after \<open>Tag\<close>, again without edges.
\<close>

definition draft_node :: GQPNode where
  "draft_node = mk_node ''Draft'' [mk_edge ''tag'' ''Tag'' belongsTo]"

definition plain_draft_node :: GQPNode where
  "plain_draft_node = mk_node ''Draft'' []"

definition tag_node :: GQPNode where
  "tag_node = mk_node ''Tag'' []"

definition redefined_schema :: GQPSchema where
  "redefined_schema =
     addNode (addNode (addNode empty_schema draft_node True) tag_node True)
       plain_draft_node True"

section \<open>The edge index and the registered nodes\<close>

text \<open>
  What the edge index of every schema satisfies: a node is stored under its own name, the
  index has one entry for a source, and the targets of a source are a set.
\<close>

definition index_ok :: "GQPSchema \<Rightarrow> bool" where
  "index_ok g =
     ((\<forall>e \<in> set (nodes g). node_name (snd e) = fst e)
      \<and> distinct (map fst (edgeIndex g))
      \<and> (\<forall>e \<in> set (edgeIndex g). distinct (snd e)))"

text \<open>
  What the two loops of \<^verbatim>\<open>getNeighbors\<close> collect from the edge index when no limit stops
  them.
\<close>

definition index_forward :: "GQPSchema \<Rightarrow> string \<Rightarrow> GQPNode list" where
  "index_forward g n = List.map_filter (getNode g) (edgeTargets g n)"

definition reverse_candidates :: "GQPSchema \<Rightarrow> string \<Rightarrow> (string \<times> string list) list
    \<Rightarrow> GQPNode list" where
  "reverse_candidates g n es =
     List.map_filter
       (\<lambda>e. if n \<in> set (snd e) \<and> fst e \<noteq> n then getNode g (fst e) else None) es"

definition index_reverse :: "GQPSchema \<Rightarrow> string \<Rightarrow> GQPNode list" where
  "index_reverse g n =
     filter (\<lambda>x. x \<notin> set (index_forward g n)) (reverse_candidates g n (edgeIndex g))"

text \<open>
  The edge index is in step with the registered nodes when it holds, for every registered
  node with edges and in the order of registration, the targets of the edges of that node.
\<close>

definition index_in_step :: "GQPSchema \<Rightarrow> bool" where
  "index_in_step g =
     (distinct (map fst (nodes g))
      \<and> (\<forall>e \<in> set (nodes g). node_name (snd e) = fst e)
      \<and> edgeIndex g = map (\<lambda>e. (fst e, out_targets (snd e)))
                         (filter (\<lambda>e. node_edges (snd e) \<noteq> []) (nodes g)))"

section \<open>Directed paths, in the specification's words\<close>

text \<open>
  A walk follows outgoing edges of the adjacency index from each of its nodes to the
  next; a path from \<open>a\<close> to \<open>b\<close> is a walk that starts at \<open>a\<close> and ends at \<open>b\<close>. A path of
  \<open>k\<close> nodes has \<open>k - 1\<close> hops.
\<close>

fun walk :: "GQPSchema \<Rightarrow> string list \<Rightarrow> bool" where
  "walk g [] = False"
| "walk g [x] = True"
| "walk g (x # y # ps) = (y \<in> set (edgeTargets g x) \<and> walk g (y # ps))"

definition path_between :: "GQPSchema \<Rightarrow> string \<Rightarrow> string \<Rightarrow> string list \<Rightarrow> bool" where
  "path_between g a b p = (walk g p \<and> hd p = a \<and> last p = b)"

definition hops :: "string list \<Rightarrow> int" where
  "hops p = int (length p) - 1"

text \<open>
  The invariant of the search loop, for the proof of C3. \<open>lv\<close> gives every visited node
  the length of the path it was dequeued with. Every queued path is a path from the
  start to its node, which is not the goal; the queue is ordered by path length and its
  lengths differ by at most one; no visited node was dequeued with a longer path than
  any queued one; every successor of a visited node is not the goal and is itself visited
  with a path at most one longer, or queued with such a path, or was beyond the depth
  bound; and the same holds of the start.
\<close>

definition bfs_inv :: "GQPSchema \<Rightarrow> string \<Rightarrow> string \<Rightarrow> int \<Rightarrow> (string \<Rightarrow> nat) \<Rightarrow> string set
    \<Rightarrow> (string \<times> string list) list \<Rightarrow> bool" where
  "bfs_inv g a b maxDepth lv visited queue =
     ((\<forall>e \<in> set queue. path_between g a (fst e) (snd e) \<and> fst e \<noteq> b)
      \<and> sorted (map (\<lambda>e. length (snd e)) queue)
      \<and> (\<forall>e \<in> set queue. \<forall>e' \<in> set queue. length (snd e) \<le> length (snd e') + 1)
      \<and> b \<notin> visited
      \<and> (\<forall>v \<in> visited. \<forall>e \<in> set queue. lv v \<le> length (snd e))
      \<and> (\<forall>v \<in> visited. \<forall>s \<in> set (edgeTargets g v).
            s \<noteq> b
            \<and> (maxDepth < int (lv v) + 1
               \<or> (s \<in> visited \<and> lv s \<le> lv v + 1)
               \<or> (\<exists>e \<in> set queue. fst e = s \<and> length (snd e) \<le> lv v + 1)))
      \<and> (maxDepth < 1
         \<or> (a \<in> visited \<and> lv a \<le> 1)
         \<or> (\<exists>e \<in> set queue. fst e = a \<and> length (snd e) \<le> 1)))"

text \<open>What C3 says of the result of the search between two different nodes.\<close>

definition shortest_within :: "GQPSchema \<Rightarrow> string \<Rightarrow> string \<Rightarrow> int \<Rightarrow> string list option
    \<Rightarrow> bool" where
  "shortest_within g a b maxDepth r =
     (case r of
        None \<Rightarrow> \<not> (\<exists>q. path_between g a b q \<and> hops q \<le> maxDepth)
      | Some p \<Rightarrow>
          path_between g a b p \<and> hops p \<le> maxDepth
          \<and> (\<forall>q. path_between g a b q \<longrightarrow> hops p \<le> hops q))"

section \<open>Sequences of cursor operations\<close>

text \<open>
  The three operations that change a cursor. A \<^verbatim>\<open>navigateTo\<close> that throws has not yet
  touched the cursor.
\<close>

datatype cursor_op = NavigateTo string | GoBack | Reset

fun apply_cursor_op :: "GQPSchema \<Rightarrow> GQPCursor \<Rightarrow> cursor_op \<Rightarrow> GQPCursor" where
  "apply_cursor_op g c (NavigateTo n) =
     (case navigateTo g c n of Inl e \<Rightarrow> c | Inr r \<Rightarrow> fst r)"
| "apply_cursor_op g c GoBack = fst (goBack g c)"
| "apply_cursor_op g c Reset = reset c"

definition run_cursor_ops :: "GQPSchema \<Rightarrow> GQPCursor \<Rightarrow> cursor_op list \<Rightarrow> GQPCursor" where
  "run_cursor_ops g c ops = foldl (apply_cursor_op g) c ops"

text \<open>The two equations of the data model that C2 states for every reachable cursor.\<close>

definition depth_matches_path :: "GQPCursor \<Rightarrow> bool" where
  "depth_matches_path c =
     (depth c = (if currentNode c = None then -1 else int (length (path c)) - 1))"

definition explored_matches_path :: "GQPCursor \<Rightarrow> bool" where
  "explored_matches_path c = (exploredNodes c = length (remdups (path c)))"

section \<open>Facts about the model used throughout\<close>

lemma test_schema_eval:
  "test_schema =
     \<lparr>nodes = [(''User'', user_node), (''Order'', order_node), (''Product'', product_node)],
      rootNodeNames = [''User'', ''Order'', ''Product''],
      edgeIndex = [(''User'', [''Order'']), (''Order'', [''User'', ''Product''])]\<rparr>"
  by (simp add: test_schema_def addNode_def empty_schema_def user_node_def order_node_def
      product_node_def mk_node_def mk_edge_def set_add_def)

lemma updateNeighbors_fields [simp]:
  "currentNode (updateNeighbors g c) = currentNode c"
  "path (updateNeighbors g c) = path c"
  "depth (updateNeighbors g c) = depth c"
  "exploredNodes (updateNeighbors g c) = exploredNodes c"
  "maxPathLength (updateNeighbors g c) = maxPathLength c"
  "createdAt (updateNeighbors g c) = createdAt c"
  "cursor_id (updateNeighbors g c) = cursor_id c"
  by (simp_all add: updateNeighbors_def split: option.splits)

lemma test_schema_registered:
  "getNode test_schema ''User'' = Some user_node"
  "getNode test_schema ''Order'' = Some order_node"
  "getNode test_schema ''Product'' = Some product_node"
  by (simp_all add: getNode_def test_schema_eval)

lemma source_order_node: "source order_node = ''test''"
  by (simp add: order_node_def mk_node_def)

lemma test_executor_parts:
  "map_of (ex_adapters (test_executor rows)) ''test'' = Some (rows_adapter rows)"
  "ex_config (test_executor rows) = DEFAULT_CONFIG"
  "ex_plugins (test_executor rows) = []"
  "adapter_execute (rows_adapter rows) n fs opts = Resolved rows"
  "adapter_count (rows_adapter rows) = None"
  by (simp_all add: test_executor_def rows_adapter_def)

lemma limit_two: "norm_limit (normalizeOptions DEFAULT_CONFIG (limit_options 2)) = 2"
  by (simp add: normalizeOptions_def DEFAULT_CONFIG_def limit_options_def no_options_def)

section \<open>C10: the start node of a new cursor is not looked up\<close>

lemma new_cursor_positioned:
  "s \<noteq> [] \<Longrightarrow> currentNode (new_cursor g cid now (Some s) mpl) = Some s
     \<and> path (new_cursor g cid now (Some s) mpl) = [s]
     \<and> depth (new_cursor g cid now (Some s) mpl) = 0"
  by (simp add: new_cursor_def Let_def)

text \<open>
  C10, as stated, fails at the empty string: \<^verbatim>\<open>startNode || null\<close> and the tests
  \<^verbatim>\<open>startNode ? ... : ...\<close> of the constructor treat the empty string as no start node, so
  \<^verbatim>\<open>create("")\<close> returns an unset cursor (no current node, empty path, depth \<open>-1\<close>) and
  not a cursor positioned on \<^verbatim>\<open>""\<close>.
\<close>

theorem create_empty_start_node_counterexample:
  "currentNode (snd (create (new_manager (Finite 3) (Finite 1800000) 100) test_schema 0 ''0'' ''a'' 0 (Some [])))
     = None
   \<and> currentNode (snd (create (new_manager (Finite 3) (Finite 1800000) 100) test_schema 0 ''0'' ''a'' 0 (Some [])))
     \<noteq> Some []
   \<and> path (snd (create (new_manager (Finite 3) (Finite 1800000) 100) test_schema 0 ''0'' ''a'' 0 (Some []))) = []
   \<and> depth (snd (create (new_manager (Finite 3) (Finite 1800000) 100) test_schema 0 ''0'' ''a'' 0 (Some []))) = -1"
  by (simp add: create_def Let_def new_cursor_def)

text \<open>
  C10 (amended): for every non-empty string \<open>s\<close>, registered in the schema or not, and
  every pool, \<^verbatim>\<open>create(s)\<close> returns a cursor with \<open>currentNode = s\<close>, \<open>path = [s]\<close> and
  \<open>depth = 0\<close>; and \<^verbatim>\<open>navigateTo(s)\<close> on any cursor fails with \<open>NODE_NOT_FOUND\<close> when \<open>s\<close>
  is absent from the schema.
\<close>

theorem create_start_node:
  "s \<noteq> [] \<Longrightarrow>
     currentNode (snd (create m g now stamp rnd ctime (Some s))) = Some s
     \<and> path (snd (create m g now stamp rnd ctime (Some s))) = [s]
     \<and> depth (snd (create m g now stamp rnd ctime (Some s))) = 0
     \<and> (getNode g s = None \<longrightarrow> navigateTo g c s = Inl (GQPError NODE_NOT_FOUND s []))"
  by (simp add: create_def Let_def new_cursor_positioned navigateTo_def)

theorem create_start_node_witness:
  "getNode test_schema ''Ghost'' = None
   \<and> currentNode (snd (create (new_manager (Finite 3) (Finite 1800000) 100) test_schema 0 ''0'' ''a'' 0
                        (Some ''Ghost''))) = Some ''Ghost''
   \<and> path (snd (create (new_manager (Finite 3) (Finite 1800000) 100) test_schema 0 ''0'' ''a'' 0
                   (Some ''Ghost''))) = [''Ghost'']
   \<and> depth (snd (create (new_manager (Finite 3) (Finite 1800000) 100) test_schema 0 ''0'' ''a'' 0
                    (Some ''Ghost''))) = 0
   \<and> navigateTo test_schema (new_cursor test_schema ''c'' 0 None 100) ''Ghost''
       = Inl (GQPError NODE_NOT_FOUND ''Ghost'' [])"
proof -
  have ne: "''Ghost'' \<noteq> []" by simp
  have absent: "getNode test_schema ''Ghost'' = None"
    by (simp add: getNode_def test_schema_eval)
  show ?thesis
    using create_start_node [OF ne, of "new_manager (Finite 3) (Finite 1800000) 100" test_schema 0 "''0''" "''a''" 0
        "new_cursor test_schema ''c'' 0 None 100"] absent
    by simp
qed

section \<open>C2: depth and explored-node count of a reachable cursor\<close>

text \<open>
  C2 does not hold of the code, at two places. \<^verbatim>\<open>goBack\<close> pops the path and does not
  recompute \<open>exploredNodes\<close>: after visiting \<open>User\<close>, \<open>Order\<close> and going back, the path is
  \<open>[User]\<close> and \<open>exploredNodes\<close> is still \<open>2\<close>. \<^verbatim>\<open>navigateTo\<close> sets \<open>depth\<close> to the length
  of the path before it drops the oldest entry: with a maximal path length of \<open>2\<close>, the
  third visit leaves a path of two entries at depth \<open>2\<close>.
\<close>

theorem cursor_equations_broken:
  "path (run_cursor_ops test_schema (new_cursor test_schema ''c'' 0 None 100)
          [NavigateTo ''User'', NavigateTo ''Order'', GoBack]) = [''User'']
   \<and> exploredNodes (run_cursor_ops test_schema (new_cursor test_schema ''c'' 0 None 100)
          [NavigateTo ''User'', NavigateTo ''Order'', GoBack]) = 2
   \<and> \<not> explored_matches_path
          (run_cursor_ops test_schema (new_cursor test_schema ''c'' 0 None 100)
             [NavigateTo ''User'', NavigateTo ''Order'', GoBack])
   \<and> path (run_cursor_ops test_schema (new_cursor test_schema ''c'' 0 None 2)
          [NavigateTo ''User'', NavigateTo ''Order'', NavigateTo ''Product''])
       = [''Order'', ''Product'']
   \<and> depth (run_cursor_ops test_schema (new_cursor test_schema ''c'' 0 None 2)
          [NavigateTo ''User'', NavigateTo ''Order'', NavigateTo ''Product'']) = 2
   \<and> \<not> depth_matches_path
          (run_cursor_ops test_schema (new_cursor test_schema ''c'' 0 None 2)
             [NavigateTo ''User'', NavigateTo ''Order'', NavigateTo ''Product''])"
  by (simp add: run_cursor_ops_def navigateTo_def goBack_def Let_def test_schema_registered
      new_cursor_def explored_matches_path_def depth_matches_path_def)

text \<open>
  The second slip does not depend on the bound chosen: whenever a non-empty path has
  reached the maximal length, the next visit leaves \<open>depth\<close> equal to the length of the
  path, one more than the data model says. With the default bound of \<open>100\<close> this is the
  visit after the hundredth.
\<close>

lemma navigateTo_depth_at_full_path:
  assumes "getNode g n = Some nd" and "int (length (path c)) \<ge> maxPathLength c"
    and "path c \<noteq> []"
  shows "depth (apply_cursor_op g c (NavigateTo n))
           = int (length (path (apply_cursor_op g c (NavigateTo n))))"
  using assms by (simp add: navigateTo_def Let_def)

section \<open>C4: the security gate when nothing is configured\<close>

text \<open>
  C4, as stated, fails for the hidden lists: \<^verbatim>\<open>isEnabled\<close> does not look at
  \<^verbatim>\<open>hiddenFields\<close> and \<^verbatim>\<open>hiddenNodes\<close>, and \<^verbatim>\<open>isFieldHidden\<close>, \<^verbatim>\<open>isNodeHidden\<close> and
  \<^verbatim>\<open>filterHiddenFields\<close> do not look at \<^verbatim>\<open>isEnabled\<close>. With only the two hidden lists
  configured the gate is disabled, and yet a field and a node are hidden and a node loses
  a field.
\<close>

theorem hidden_lists_counterexample:
  "\<not> isEnabled (no_security\<lparr>hiddenFields := Some [''password''],
                              hiddenNodes := Some [''AuditLog'']\<rparr>)
   \<and> isFieldHidden (no_security\<lparr>hiddenFields := Some [''password''],
                                 hiddenNodes := Some [''AuditLog'']\<rparr>) ''password''
   \<and> isNodeHidden (no_security\<lparr>hiddenFields := Some [''password''],
                                hiddenNodes := Some [''AuditLog'']\<rparr>) ''AuditLog''
   \<and> filterHiddenFields (no_security\<lparr>hiddenFields := Some [''password''],
                                      hiddenNodes := Some [''AuditLog'']\<rparr>)
         (user_node\<lparr>node_fields :=
            [\<lparr>field_name = ''password'', field_type = ''String'', directives = []\<rparr>]\<rparr>)
       \<noteq> user_node\<lparr>node_fields :=
            [\<lparr>field_name = ''password'', field_type = ''String'', directives = []\<rparr>]\<rparr>"
  by (simp add: no_security_def isEnabled_def isFieldHidden_def isNodeHidden_def
      filterHiddenFields_def matchPattern_def user_node_def mk_node_def)

text \<open>
  C4 (amended): \<^verbatim>\<open>isEnabled()\<close> is true exactly when a context provider, node-access
  rules, row-level-security rules or an introspection policy is configured; when it is
  false, \<^verbatim>\<open>checkNodeAccess\<close> and \<^verbatim>\<open>checkIntrospectionAccess\<close> return without an error and
  \<^verbatim>\<open>applyRLS\<close> returns the caller's filters. Hiding is decided by the two hidden lists
  alone: with \<^verbatim>\<open>hiddenNodes\<close> absent or empty no node is hidden, and with \<^verbatim>\<open>hiddenFields\<close>
  absent or empty no field is hidden and \<^verbatim>\<open>filterHiddenFields\<close> returns the node as it is.
\<close>

theorem disabled_gate_is_open:
  "isEnabled cfg
     = (contextProvider cfg \<noteq> None \<or> nodeAccess cfg \<noteq> None
        \<or> rowLevelSecurity cfg \<noteq> None \<or> introspection cfg \<noteq> None)
   \<and> (\<not> isEnabled cfg \<longrightarrow>
         checkNodeAccess cfg node action ctx = Inr ()
       \<and> checkIntrospectionAccess cfg ctx = Inr ()
       \<and> applyRLS cfg node filters ctx = Inr filters)
   \<and> ((hiddenNodes cfg = None \<or> hiddenNodes cfg = Some []) \<longrightarrow> \<not> isNodeHidden cfg nodeName)
   \<and> ((hiddenFields cfg = None \<or> hiddenFields cfg = Some []) \<longrightarrow>
         \<not> isFieldHidden cfg fieldName \<and> filterHiddenFields cfg nd = nd)"
  by (auto simp: isEnabled_def checkNodeAccess_def checkIntrospectionAccess_def applyRLS_def
      getRLSFilters_def resolve_context_def getContext_def lookup_rule_def isNodeHidden_def
      isFieldHidden_def filterHiddenFields_def split: option.splits)

theorem disabled_gate_is_open_witness:
  "\<not> isEnabled no_security
   \<and> checkNodeAccess no_security ''User'' query None = Inr ()
   \<and> checkIntrospectionAccess no_security None = Inr ()
   \<and> applyRLS no_security ''User'' [(''status'', JStr ''pending'')] None
       = Inr [(''status'', JStr ''pending'')]
   \<and> \<not> isNodeHidden no_security ''User''
   \<and> \<not> isFieldHidden no_security ''password''
   \<and> filterHiddenFields no_security user_node = user_node"
proof -
  have off: "\<not> isEnabled no_security"
    by (simp add: isEnabled_def no_security_def)
  have lists: "hiddenNodes no_security = None" "hiddenFields no_security = None"
    by (simp_all add: no_security_def)
  show ?thesis
    using disabled_gate_is_open [of no_security "''User''" query None
        "[(''status'', JStr ''pending'')]" "''User''" "''password''" user_node] off lists
    by simp
qed

section \<open>C7: \<open>hasMore\<close>\<close>

text \<open>
  C7: when the node and its adapter are found, the pre-query hooks resolve, the adapter
  resolves with \<open>rows\<close> and the post-query hooks resolve with an array of the same length,
  \<^verbatim>\<open>execute\<close> returns a result whose \<open>hasMore\<close> is true exactly when the number of rows
  equals the normalized limit; in particular it is false when there are fewer rows.
\<close>

theorem hasMore_iff_limit_reached:
  assumes "getNode g nodeName = Some node"
    and "map_of (ex_adapters ex) (source node) = Some adapter"
    and "pre_query_loop node (query_context (ex_config ex) filters options) (ex_plugins ex)
           filters = Inr processed"
    and "adapter_execute adapter nodeName processed (normalizeOptions (ex_config ex) options)
           = Resolved rows"
    and "post_query_loop node (query_context (ex_config ex) filters options) (ex_plugins ex)
           rows = Inr results"
    and "length results = length rows"
  shows "\<exists>res. execute ex g elapsed nodeName filters options = Inr res
           \<and> data res = results
           \<and> hasMore res
               = (real (length rows) = norm_limit (normalizeOptions (ex_config ex) options))
           \<and> (real (length rows) < norm_limit (normalizeOptions (ex_config ex) options)
                \<longrightarrow> \<not> hasMore res)"
  using assms by (simp add: execute_def Let_def executeWithTimeout_def)

theorem hasMore_iff_limit_reached_witness:
  "(\<exists>res. execute (test_executor [JNull, JNull]) test_schema 7 ''Order'' [] (limit_options 2)
            = Inr res
          \<and> data res = [JNull, JNull] \<and> hasMore res)
   \<and> (\<exists>res. execute (test_executor [JNull]) test_schema 7 ''Order'' [] (limit_options 2)
              = Inr res
            \<and> data res = [JNull] \<and> \<not> hasMore res)"
proof -
  have full: "\<exists>res. execute (test_executor [JNull, JNull]) test_schema 7 ''Order'' []
                       (limit_options 2) = Inr res
                \<and> data res = [JNull, JNull] \<and> hasMore res"
    using hasMore_iff_limit_reached [of test_schema "''Order''" order_node
        "test_executor [JNull, JNull]" "rows_adapter [JNull, JNull]" "[]" "limit_options 2"
        "[]" "[JNull, JNull]" "[JNull, JNull]" 7]
    by (simp add: test_schema_registered source_order_node test_executor_parts limit_two)
  have fewer: "\<exists>res. execute (test_executor [JNull]) test_schema 7 ''Order'' []
                        (limit_options 2) = Inr res
                 \<and> data res = [JNull] \<and> \<not> hasMore res"
    using hasMore_iff_limit_reached [of test_schema "''Order''" order_node
        "test_executor [JNull]" "rows_adapter [JNull]" "[]" "limit_options 2"
        "[]" "[JNull]" "[JNull]" 7]
    by (simp add: test_schema_registered source_order_node test_executor_parts limit_two)
  show ?thesis using full fewer by blast
qed

section \<open>C8: the suggested next actions\<close>

lemma execute_order_rows:
  "execute (test_executor rows) test_schema 7 ''Order'' [] (limit_options n)
     = Inr \<lparr>data = rows, total = None,
            hasMore = (real (length rows)
                         = norm_limit (normalizeOptions DEFAULT_CONFIG (limit_options n))),
            executionTimeMs = 7,
            nextActions = suggestNextActions DEFAULT_CONFIG order_node rows\<rparr>"
  by (simp add: execute_def Let_def test_schema_registered source_order_node
      test_executor_parts executeWithTimeout_def)

text \<open>
  C8, as stated, fails in both directions: \<^verbatim>\<open>suggestNextActions\<close> is not given the options
  of the call and compares the number of results with the configured default limit
  (\<open>10\<close>). Two rows for a requested limit of two are not followed by the suggestion to add
  filters; ten rows for a requested limit of fifty are.
\<close>

theorem add_filters_counterexample:
  "(case execute (test_executor [JNull, JNull]) test_schema 7 ''Order'' [] (limit_options 2) of
      Inl e \<Rightarrow> False
    | Inr res \<Rightarrow>
        real (length (data res)) = norm_limit (normalizeOptions DEFAULT_CONFIG (limit_options 2))
        \<and> ''Add filters to narrow down results'' \<notin> set (nextActions res))
   \<and> (case execute (test_executor [JNull, JNull, JNull, JNull, JNull, JNull, JNull, JNull,
                                     JNull, JNull])
              test_schema 7 ''Order'' [] (limit_options 50) of
        Inl e \<Rightarrow> False
      | Inr res \<Rightarrow>
          real (length (data res))
            \<noteq> norm_limit (normalizeOptions DEFAULT_CONFIG (limit_options 50))
          \<and> ''Add filters to narrow down results'' \<in> set (nextActions res))"
  unfolding execute_order_rows
  by (simp add: suggestNextActions_def DEFAULT_CONFIG_def normalizeOptions_def
      limit_options_def no_options_def order_node_def mk_node_def mk_edge_def)

text \<open>
  C8 (amended): for every \<^verbatim>\<open>execute\<close> call that returns a non-empty result array, the next
  actions are the navigation suggestions for the first two edges of the node (fewer when
  the node has fewer), followed by the suggestion to add filters exactly when the number
  of results is at least the configured default limit.
\<close>

theorem nextActions_of_execute:
  assumes "getNode g nodeName = Some node"
    and "execute ex g elapsed nodeName filters options = Inr res"
    and "data res \<noteq> []"
  shows "nextActions res =
           map (\<lambda>edge. ''Navigate to '' @ edge_to edge @ '' to see related data'')
             (take 2 (node_edges node))
           @ (if real (length (data res)) \<ge> defaultLimit (ex_config ex)
              then [''Add filters to narrow down results''] else [])"
  using assms
  by (auto simp: execute_def Let_def suggestNextActions_def split: option.splits sum.splits)

theorem nextActions_of_execute_witness:
  "execute (test_executor [JNull, JNull]) test_schema 7 ''Order'' [] (limit_options 2)
     = Inr \<lparr>data = [JNull, JNull], total = None, hasMore = True, executionTimeMs = 7,
            nextActions = [''Navigate to User to see related data'',
                           ''Navigate to Product to see related data'']\<rparr>"
proof -
  let ?res = "\<lparr>data = [JNull, JNull], total = None,
               hasMore = (real (length [JNull, JNull])
                            = norm_limit (normalizeOptions DEFAULT_CONFIG (limit_options 2))),
               executionTimeMs = 7,
               nextActions = suggestNextActions DEFAULT_CONFIG order_node [JNull, JNull]\<rparr>"
  have run: "execute (test_executor [JNull, JNull]) test_schema 7 ''Order'' []
               (limit_options 2) = Inr ?res"
    by (rule execute_order_rows)
  have "nextActions ?res =
          map (\<lambda>edge. ''Navigate to '' @ edge_to edge @ '' to see related data'')
             (take 2 (node_edges order_node))
           @ (if real (length (data ?res)) \<ge> defaultLimit (ex_config (test_executor [JNull, JNull]))
              then [''Add filters to narrow down results''] else [])"
    using nextActions_of_execute [OF test_schema_registered(2) run] by simp
  then have "nextActions ?res = [''Navigate to User to see related data'',
                                 ''Navigate to Product to see related data'']"
    by (simp add: order_node_def mk_node_def mk_edge_def test_executor_parts DEFAULT_CONFIG_def)
  with run show ?thesis
    by (simp add: limit_two)
qed

section \<open>C9: a cursor identifier that names no live cursor\<close>








section \<open>C1: the depth limit of filters\<close>

lemma identifier_examples:
  "identifier_pattern ''a''" "identifier_pattern ''b''" "identifier_pattern ''c''"
  "identifier_pattern ''d''" "identifier_pattern ''e''" "identifier_pattern ''f''"
  "identifier_pattern ''g''" "identifier_pattern ''h''" "identifier_pattern ''User''"
  by (simp_all add: identifier_pattern_def ident_start_def ident_char_def)

text \<open>
  C1 does not hold of the code. Only \<^verbatim>\<open>validateFilters\<close> compares the depth with the
  limit, and below the top level it is entered only under the keys \<^verbatim>\<open>AND\<close>, \<^verbatim>\<open>OR\<close> and
  \<^verbatim>\<open>NOT\<close> of an operator object; \<^verbatim>\<open>validateNestedFilter\<close> passes \<^verbatim>\<open>depth + 1\<close> to itself
  for every nested object and never compares it. With the default limit of \<open>5\<close>, the
  query call whose filters nest plain objects to depth \<open>7\<close> is accepted and its filters
  are returned as they are.
\<close>

theorem deep_filters_accepted:
  "nesting_depth deep_filters = 7
   \<and> int (nesting_depth deep_filters) > maxFilterDepth DEFAULT_VALIDATION
   \<and> validateFilters DEFAULT_VALIDATION deep_filters 0 = Inr deep_filters
   \<and> validateToolCallParams DEFAULT_VALIDATION deep_query_call
       = Inr \<lparr>tc_action = query, tc_node = Some ''User'', tc_query = None,
              tc_filters = Some deep_filters, tc_cursorId = None\<rparr>"
  by (simp add: nesting_depth_def deep_filters_def deep_query_call_def
      validateToolCallParams_def validateAction_def validateNodeName_def trim_def is_space_def
      DEFAULT_VALIDATION_def identifier_examples logical_keys_def js_assign_def)

text \<open>
  The other half of C1 holds: a depth error is raised only for a value that nests deeper
  than the limit. The four statements follow the four functions of the recursion; the
  first, at depth \<open>0\<close>, is the claim's.
\<close>

lemma nesting_array_entries: "nesting_entries (array_entries i vs) = nesting_list vs"
  by (induction vs arbitrary: i) auto

lemma validation_error_is_depth_error [simp]:
  "(validation_error f m = depth_error) = (f = ''filters'' \<and> m = ''exceeds maximum depth'')"
  by (simp add: validation_error_def depth_error_def)

lemma depth_error_needs_depth:
  "validateFilters cfg v d = Inl depth_error
     \<Longrightarrow> maxFilterDepth cfg + 2 \<le> d + int (nesting v)"
  "validateFilters_loop cfg es d acc = Inl depth_error
     \<Longrightarrow> maxFilterDepth cfg + 2 \<le> d + int (nesting_entries es)"
  "validateNestedFilter cfg pk es d acc = Inl depth_error
     \<Longrightarrow> maxFilterDepth cfg + 1 \<le> d + int (nesting_entries es)"
  "validateFilters_map cfg vs d = Inl depth_error
     \<Longrightarrow> maxFilterDepth cfg + 2 \<le> d + int (nesting_list vs)"
proof (induction cfg v d and cfg es d acc and cfg pk es d acc and cfg vs d
       rule: validateFilters_validateFilters_loop_validateNestedFilter_validateFilters_map.induct)
  case (1 cfg filters dep)
  then show ?case
    by (cases filters) (auto split: if_splits sum.splits)
next
  case (2 cfg dep validated)
  then show ?case by simp
next
  case (3 cfg entry rest dep validated)
  then show ?case
    apply (cases "snd entry")
    apply (auto split: if_splits sum.splits simp: max_def simp del: validateFilters.simps)
    apply (fastforce simp del: validateFilters.simps)+
    done
next
  case (4 cfg parentKey dep validated)
  then show ?case by simp
next
  case (5 cfg parentKey entry rest dep validated)
  then show ?case
    apply (cases "snd entry")
    apply (auto split: if_splits sum.splits simp: nesting_array_entries max_def
          simp del: validateFilters.simps)
    apply (fastforce simp del: validateFilters.simps)+
    done
next
  case (6 cfg dep)
  then show ?case by simp
next
  case (7 cfg v vs dep)
  then show ?case
    by (auto split: sum.splits)
qed

lemma no_depth_error_within_bound:
  "int (nesting_depth v) \<le> maxFilterDepth cfg \<Longrightarrow> validateFilters cfg v 0 \<noteq> Inl depth_error"
  using depth_error_needs_depth(1) [of cfg v 0] by (auto simp: nesting_depth_def)

section \<open>C3: \<open>findPath\<close> is a shortest-path search\<close>

lemma expand_closed:
  "expand b pth ts queue
     = (if b \<in> set ts then Inl (pth @ [b])
        else Inr (queue @ map (\<lambda>s. (s, pth @ [s])) ts))"
  by (induction ts arbitrary: queue) (auto simp: Let_def)

lemma walk_nonempty: "walk g p \<Longrightarrow> p \<noteq> []"
  by (cases p) auto

lemma walk_snoc: "walk g p \<Longrightarrow> s \<in> set (edgeTargets g (last p)) \<Longrightarrow> walk g (p @ [s])"
proof (induction p rule: walk.induct)
  case (1 g)
  then show ?case by simp
next
  case (2 g x)
  then show ?case by simp
next
  case (3 g x y ps)
  then show ?case by simp
qed

lemma walk_step: "walk g q \<Longrightarrow> i + 1 < length q \<Longrightarrow> q ! (i + 1) \<in> set (edgeTargets g (q ! i))"
proof (induction q arbitrary: i rule: walk.induct)
  case (1 g)
  then show ?case by simp
next
  case (2 g x)
  then show ?case by simp
next
  case (3 g x y ps)
  show ?case
  proof (cases i)
    case 0
    then show ?thesis using 3 by simp
  next
    case (Suc k)
    then show ?thesis using 3 by simp
  qed
qed

lemma bfs_frontier:
  assumes inv: "bfs_inv g a b maxDepth lv visited queue"
    and ab: "a \<noteq> b"
    and q: "path_between g a b q" "hops q \<le> maxDepth"
  shows "\<exists>j. \<exists>e \<in> set queue. j + 1 < length q \<and> fst e = q ! j \<and> length (snd e) \<le> j + 1"
proof (rule ccontr)
  assume no: "\<not> (\<exists>j. \<exists>e \<in> set queue. j + 1 < length q \<and> fst e = q ! j \<and> length (snd e) \<le> j + 1)"
  have w: "walk g q" and h: "hd q = a" and l: "last q = b"
    using q(1) by (simp_all add: path_between_def)
  have ne: "q \<noteq> []" using w by (rule walk_nonempty)
  have q0: "q ! 0 = a" using h ne by (simp add: hd_conv_nth)
  have qlast: "q ! (length q - 1) = b" using l ne by (simp add: last_conv_nth)
  have len2: "2 \<le> length q"
  proof (rule ccontr)
    assume "\<not> 2 \<le> length q"
    moreover have "length q \<noteq> 0" using ne by simp
    ultimately have "length q = 1" by linarith
    then have "q ! 0 = b" using qlast by simp
    with q0 ab show False by simp
  qed
  have bound: "int (length q) \<le> maxDepth + 1" using q(2) by (simp add: hops_def)
  have succ_ok: "\<forall>v \<in> visited. \<forall>s \<in> set (edgeTargets g v).
            s \<noteq> b
            \<and> (maxDepth < int (lv v) + 1
               \<or> (s \<in> visited \<and> lv s \<le> lv v + 1)
               \<or> (\<exists>e \<in> set queue. fst e = s \<and> length (snd e) \<le> lv v + 1))"
    using inv by (simp add: bfs_inv_def)
  have start: "maxDepth < 1 \<or> (a \<in> visited \<and> lv a \<le> 1)
         \<or> (\<exists>e \<in> set queue. fst e = a \<and> length (snd e) \<le> 1)"
    using inv by (simp add: bfs_inv_def)
  have reach: "i + 1 < length q \<Longrightarrow> q ! i \<in> visited \<and> lv (q ! i) \<le> i + 1" for i
  proof (induction i)
    case 0
    from start show ?case
    proof (elim disjE)
      assume "maxDepth < 1"
      with bound len2 show ?thesis by simp
    next
      assume "a \<in> visited \<and> lv a \<le> 1"
      then show ?thesis using q0 by simp
    next
      assume "\<exists>e \<in> set queue. fst e = a \<and> length (snd e) \<le> 1"
      then obtain e where "e \<in> set queue" "fst e = q ! 0" "length (snd e) \<le> 0 + 1"
        using q0 by auto
      with no 0 show ?thesis by blast
    qed
  next
    case (Suc i)
    then have prev: "q ! i \<in> visited" "lv (q ! i) \<le> i + 1" by simp_all
    have edge: "q ! (i + 1) \<in> set (edgeTargets g (q ! i))"
      using walk_step [OF w, of i] Suc.prems by simp
    from succ_ok prev(1) edge
    have alt: "maxDepth < int (lv (q ! i)) + 1
               \<or> (q ! (i + 1) \<in> visited \<and> lv (q ! (i + 1)) \<le> lv (q ! i) + 1)
               \<or> (\<exists>e \<in> set queue. fst e = q ! (i + 1) \<and> length (snd e) \<le> lv (q ! i) + 1)"
      by blast
    from alt show ?case
    proof (elim disjE)
      assume "maxDepth < int (lv (q ! i)) + 1"
      with prev(2) bound Suc.prems show ?thesis by simp
    next
      assume "q ! (i + 1) \<in> visited \<and> lv (q ! (i + 1)) \<le> lv (q ! i) + 1"
      with prev(2) show ?thesis by simp
    next
      assume "\<exists>e \<in> set queue. fst e = q ! (i + 1) \<and> length (snd e) \<le> lv (q ! i) + 1"
      then obtain e where "e \<in> set queue" "fst e = q ! (Suc i)" "length (snd e) \<le> Suc i + 1"
        using prev(2) by auto
      with no Suc.prems show ?thesis by blast
    qed
  qed
  let ?i = "length q - 2"
  have i: "?i + 1 < length q" "?i + 1 = length q - 1" using len2 by simp_all
  from reach [OF i(1)] have v: "q ! ?i \<in> visited" by simp
  have "q ! (?i + 1) \<in> set (edgeTargets g (q ! ?i))"
    using walk_step [OF w i(1)] .
  then have "b \<in> set (edgeTargets g (q ! ?i))" using qlast i(2) by simp
  with succ_ok v show False by blast
qed

text \<open>The dequeued entry is dropped because its path is over the depth bound.\<close>

lemma bfs_inv_drop_deep:
  assumes inv: "bfs_inv g a b maxDepth lv visited ((node, pth) # queue)"
    and deep: "int (length pth) > maxDepth"
  shows "bfs_inv g a b maxDepth lv visited queue"
proof -
  have s: "sorted (map (\<lambda>e. length (snd e)) queue)"
    using inv by (simp add: bfs_inv_def)
  have succ_ok: "\<forall>v \<in> visited. \<forall>s \<in> set (edgeTargets g v).
            s \<noteq> b
            \<and> (maxDepth < int (lv v) + 1
               \<or> (s \<in> visited \<and> lv s \<le> lv v + 1)
               \<or> (\<exists>e \<in> set queue. fst e = s \<and> length (snd e) \<le> lv v + 1))"
  proof (intro ballI)
    fix v s assume v: "v \<in> visited" and sv: "s \<in> set (edgeTargets g v)"
    from inv v sv have nb: "s \<noteq> b"
      and alt: "maxDepth < int (lv v) + 1
               \<or> (s \<in> visited \<and> lv s \<le> lv v + 1)
               \<or> (\<exists>e \<in> set ((node, pth) # queue). fst e = s \<and> length (snd e) \<le> lv v + 1)"
      unfolding bfs_inv_def by blast+
    from alt have "maxDepth < int (lv v) + 1
               \<or> (s \<in> visited \<and> lv s \<le> lv v + 1)
               \<or> (\<exists>e \<in> set queue. fst e = s \<and> length (snd e) \<le> lv v + 1)"
      using deep by auto
    with nb show "s \<noteq> b
            \<and> (maxDepth < int (lv v) + 1
               \<or> (s \<in> visited \<and> lv s \<le> lv v + 1)
               \<or> (\<exists>e \<in> set queue. fst e = s \<and> length (snd e) \<le> lv v + 1))" by simp
  qed
  have start: "maxDepth < 1 \<or> (a \<in> visited \<and> lv a \<le> 1)
         \<or> (\<exists>e \<in> set queue. fst e = a \<and> length (snd e) \<le> 1)"
  proof -
    from inv have "maxDepth < 1 \<or> (a \<in> visited \<and> lv a \<le> 1)
         \<or> (\<exists>e \<in> set ((node, pth) # queue). fst e = a \<and> length (snd e) \<le> 1)"
      by (simp add: bfs_inv_def)
    then show ?thesis using deep by auto
  qed
  show ?thesis
    unfolding bfs_inv_def
    using inv s succ_ok start by (simp add: bfs_inv_def)
qed

text \<open>The dequeued entry is dropped because its node was visited before.\<close>

lemma bfs_inv_drop_visited:
  assumes inv: "bfs_inv g a b maxDepth lv visited ((node, pth) # queue)"
    and vis: "node \<in> visited"
  shows "bfs_inv g a b maxDepth lv visited queue"
proof -
  have s: "sorted (map (\<lambda>e. length (snd e)) queue)"
    using inv by (simp add: bfs_inv_def)
  have lvn: "lv node \<le> length pth"
    using inv vis by (simp add: bfs_inv_def)
  have succ_ok: "\<forall>v \<in> visited. \<forall>s \<in> set (edgeTargets g v).
            s \<noteq> b
            \<and> (maxDepth < int (lv v) + 1
               \<or> (s \<in> visited \<and> lv s \<le> lv v + 1)
               \<or> (\<exists>e \<in> set queue. fst e = s \<and> length (snd e) \<le> lv v + 1))"
  proof (intro ballI)
    fix v s assume v: "v \<in> visited" and sv: "s \<in> set (edgeTargets g v)"
    from inv v sv have nb: "s \<noteq> b"
      and alt: "maxDepth < int (lv v) + 1
               \<or> (s \<in> visited \<and> lv s \<le> lv v + 1)
               \<or> (\<exists>e \<in> set ((node, pth) # queue). fst e = s \<and> length (snd e) \<le> lv v + 1)"
      unfolding bfs_inv_def by blast+
    from alt have "maxDepth < int (lv v) + 1
               \<or> (s \<in> visited \<and> lv s \<le> lv v + 1)
               \<or> (\<exists>e \<in> set queue. fst e = s \<and> length (snd e) \<le> lv v + 1)"
      using vis lvn by auto
    with nb show "s \<noteq> b
            \<and> (maxDepth < int (lv v) + 1
               \<or> (s \<in> visited \<and> lv s \<le> lv v + 1)
               \<or> (\<exists>e \<in> set queue. fst e = s \<and> length (snd e) \<le> lv v + 1))" by simp
  qed
  have start: "maxDepth < 1 \<or> (a \<in> visited \<and> lv a \<le> 1)
         \<or> (\<exists>e \<in> set queue. fst e = a \<and> length (snd e) \<le> 1)"
  proof -
    from inv have "maxDepth < 1 \<or> (a \<in> visited \<and> lv a \<le> 1)
         \<or> (\<exists>e \<in> set ((node, pth) # queue). fst e = a \<and> length (snd e) \<le> 1)"
      by (simp add: bfs_inv_def)
    then show ?thesis using vis lvn by auto
  qed
  show ?thesis
    unfolding bfs_inv_def
    using inv s succ_ok start by (simp add: bfs_inv_def)
qed

lemma bfs_inv_head_shortest:
  assumes inv: "bfs_inv g a b maxDepth lv visited ((node, pth) # queue)"
    and e: "e \<in> set ((node, pth) # queue)"
  shows "length pth \<le> length (snd e)" and "length (snd e) \<le> length pth + 1"
proof -
  have "sorted (map (\<lambda>e. length (snd e)) ((node, pth) # queue))"
    using inv by (simp add: bfs_inv_def)
  then show "length pth \<le> length (snd e)" using e by auto
  have "\<forall>e \<in> set ((node, pth) # queue). \<forall>e' \<in> set ((node, pth) # queue).
          length (snd e) \<le> length (snd e') + 1"
    using inv unfolding bfs_inv_def by blast
  then have "length (snd e) \<le> length (snd (node, pth)) + 1" using e by (metis list.set_intros(1))
  then show "length (snd e) \<le> length pth + 1" by simp
qed

lemma bfs_inv_expand:
  assumes inv: "bfs_inv g a b maxDepth lv visited ((node, pth) # queue)"
    and fresh: "node \<notin> visited"
    and nogoal: "b \<notin> set (edgeTargets g node)"
  shows "bfs_inv g a b maxDepth (lv(node := length pth)) (insert node visited)
           (queue @ map (\<lambda>s. (s, pth @ [s])) (edgeTargets g node))"
proof -
  let ?new = "map (\<lambda>s. (s, pth @ [s])) (edgeTargets g node)"
  let ?Q = "queue @ ?new"
  let ?lv = "lv(node := length pth)"
  let ?L = "length pth"
  have head: "path_between g a node pth" "node \<noteq> b"
    using inv by (simp_all add: bfs_inv_def)
  have wp: "walk g pth" "hd pth = a" "last pth = node"
    using head(1) by (simp_all add: path_between_def)
  have pne: "pth \<noteq> []" using wp(1) by (rule walk_nonempty)
  have old_lo: "\<And>e. e \<in> set queue \<Longrightarrow> ?L \<le> length (snd e)"
    using bfs_inv_head_shortest(1) [OF inv] by simp
  have old_hi: "\<And>e. e \<in> set queue \<Longrightarrow> length (snd e) \<le> ?L + 1"
    using bfs_inv_head_shortest(2) [OF inv] by simp
  have new_len: "\<And>e. e \<in> set ?new \<Longrightarrow> length (snd e) = ?L + 1"
    by auto
  have bounds: "?L \<le> length (snd e) \<and> length (snd e) \<le> ?L + 1" if "e \<in> set ?Q" for e
  proof -
    from that consider "e \<in> set queue" | "e \<in> set ?new" by auto
    then show ?thesis
    proof cases
      case 1
      then show ?thesis using old_lo [of e] old_hi [of e] by simp
    next
      case 2
      then show ?thesis using new_len [of e] by simp
    qed
  qed
  have c1: "\<forall>e \<in> set ?Q. path_between g a (fst e) (snd e) \<and> fst e \<noteq> b"
  proof
    fix e assume "e \<in> set ?Q"
    then consider "e \<in> set queue" | "e \<in> set ?new" by auto
    then show "path_between g a (fst e) (snd e) \<and> fst e \<noteq> b"
    proof cases
      case 1
      then show ?thesis using inv by (simp add: bfs_inv_def)
    next
      case 2
      then obtain s where s: "s \<in> set (edgeTargets g node)" "e = (s, pth @ [s])" by auto
      have "walk g (pth @ [s])" using walk_snoc [OF wp(1)] s(1) wp(3) by simp
      moreover have "hd (pth @ [s]) = a" using pne wp(2) by simp
      moreover have "s \<noteq> b" using s(1) nogoal by auto
      ultimately show ?thesis using s(2) by (simp add: path_between_def)
    qed
  qed
  have c2: "sorted (map (\<lambda>e. length (snd e)) ?Q)"
  proof -
    have "sorted (map (\<lambda>e. length (snd e)) queue)"
      using inv by (simp add: bfs_inv_def)
    moreover have "sorted (map (\<lambda>e. length (snd e)) ?new)"
      by (simp add: comp_def sorted_iff_nth_mono)
    moreover have "\<forall>x \<in> set (map (\<lambda>e. length (snd e)) queue).
                     \<forall>y \<in> set (map (\<lambda>e. length (snd e)) ?new). x \<le> y"
    proof (intro ballI)
      fix x y assume x: "x \<in> set (map (\<lambda>e. length (snd e)) queue)"
        and y: "y \<in> set (map (\<lambda>e. length (snd e)) ?new)"
      from x obtain e where e: "e \<in> set queue" "x = length (snd e)" by auto
      from y have "y = ?L + 1" by auto
      then show "x \<le> y" using old_hi [OF e(1)] e(2) by simp
    qed
    ultimately show ?thesis
      unfolding map_append sorted_append by blast
  qed
  have c3: "\<forall>e \<in> set ?Q. \<forall>e' \<in> set ?Q. length (snd e) \<le> length (snd e') + 1"
  proof (intro ballI)
    fix e e' assume e: "e \<in> set ?Q" and e': "e' \<in> set ?Q"
    show "length (snd e) \<le> length (snd e') + 1"
      using bounds [OF e] bounds [OF e'] by simp
  qed
  have c4: "b \<notin> insert node visited"
    using inv head(2) by (simp add: bfs_inv_def)
  have lv_old: "\<And>v. v \<in> visited \<Longrightarrow> lv v \<le> ?L"
    using inv by (simp add: bfs_inv_def)
  have lv_same: "\<And>v. v \<in> visited \<Longrightarrow> ?lv v = lv v"
    using fresh by auto
  have c5: "\<forall>v \<in> insert node visited. \<forall>e \<in> set ?Q. ?lv v \<le> length (snd e)"
  proof (intro ballI)
    fix v e assume v: "v \<in> insert node visited" and e: "e \<in> set ?Q"
    have lo: "?L \<le> length (snd e)" using bounds [OF e] by simp
    show "?lv v \<le> length (snd e)"
    proof (cases "v = node")
      case True
      then show ?thesis using lo by simp
    next
      case False
      then have "v \<in> visited" using v by simp
      then show ?thesis using lv_old [of v] lv_same [of v] lo by simp
    qed
  qed
  have c6: "\<forall>v \<in> insert node visited. \<forall>s \<in> set (edgeTargets g v).
            s \<noteq> b
            \<and> (maxDepth < int (?lv v) + 1
               \<or> (s \<in> insert node visited \<and> ?lv s \<le> ?lv v + 1)
               \<or> (\<exists>e \<in> set ?Q. fst e = s \<and> length (snd e) \<le> ?lv v + 1))"
  proof (intro ballI)
    fix v s assume v: "v \<in> insert node visited" and sv: "s \<in> set (edgeTargets g v)"
    show "s \<noteq> b
            \<and> (maxDepth < int (?lv v) + 1
               \<or> (s \<in> insert node visited \<and> ?lv s \<le> ?lv v + 1)
               \<or> (\<exists>e \<in> set ?Q. fst e = s \<and> length (snd e) \<le> ?lv v + 1))"
    proof (cases "v = node")
      case True
      have "s \<noteq> b" using sv nogoal True by auto
      moreover have "(s, pth @ [s]) \<in> set ?Q" using sv True by auto
      then have "\<exists>e \<in> set ?Q. fst e = s \<and> length (snd e) \<le> ?lv v + 1"
        using True by force
      ultimately show ?thesis by blast
    next
      case False
      then have vv: "v \<in> visited" using v by simp
      from inv vv sv have nb: "s \<noteq> b"
        and alt: "maxDepth < int (lv v) + 1
               \<or> (s \<in> visited \<and> lv s \<le> lv v + 1)
               \<or> (\<exists>e \<in> set ((node, pth) # queue). fst e = s \<and> length (snd e) \<le> lv v + 1)"
        unfolding bfs_inv_def by blast+
      have same: "?lv v = lv v" using lv_same [OF vv] .
      from alt have "maxDepth < int (?lv v) + 1
               \<or> (s \<in> insert node visited \<and> ?lv s \<le> ?lv v + 1)
               \<or> (\<exists>e \<in> set ?Q. fst e = s \<and> length (snd e) \<le> ?lv v + 1)"
      proof (elim disjE)
        assume "maxDepth < int (lv v) + 1"
        then show ?thesis using same by simp
      next
        assume "s \<in> visited \<and> lv s \<le> lv v + 1"
        then show ?thesis using same lv_same [of s] by simp
      next
        assume "\<exists>e \<in> set ((node, pth) # queue). fst e = s \<and> length (snd e) \<le> lv v + 1"
        then obtain e where e: "e \<in> set ((node, pth) # queue)" "fst e = s"
          "length (snd e) \<le> lv v + 1" by blast
        show ?thesis
        proof (cases "e = (node, pth)")
          case True
          then have "s = node" "?L \<le> lv v + 1" using e by auto
          then show ?thesis using same by simp
        next
          case False
          then have "e \<in> set ?Q" using e(1) by simp
          then show ?thesis using e(2,3) same by auto
        qed
      qed
      with nb show ?thesis by simp
    qed
  qed
  have c7: "maxDepth < 1 \<or> (a \<in> insert node visited \<and> ?lv a \<le> 1)
         \<or> (\<exists>e \<in> set ?Q. fst e = a \<and> length (snd e) \<le> 1)"
  proof -
    from inv have "maxDepth < 1 \<or> (a \<in> visited \<and> lv a \<le> 1)
         \<or> (\<exists>e \<in> set ((node, pth) # queue). fst e = a \<and> length (snd e) \<le> 1)"
      by (simp add: bfs_inv_def)
    then show ?thesis
    proof (elim disjE)
      assume "maxDepth < 1"
      then show ?thesis by simp
    next
      assume "a \<in> visited \<and> lv a \<le> 1"
      then show ?thesis using lv_same [of a] by simp
    next
      assume "\<exists>e \<in> set ((node, pth) # queue). fst e = a \<and> length (snd e) \<le> 1"
      then obtain e where e: "e \<in> set ((node, pth) # queue)" "fst e = a"
          "length (snd e) \<le> 1" by blast
      show ?thesis
      proof (cases "e = (node, pth)")
        case True
        then have "a = node" "?L \<le> 1" using e by auto
        then show ?thesis by simp
      next
        case False
        then have "e \<in> set ?Q" using e(1) by simp
        then show ?thesis using e(2,3) by auto
      qed
    qed
  qed
  show ?thesis
    unfolding bfs_inv_def
    by (intro conjI c1 c2 c3 c4 c5 c6 c7)
qed

lemma bfs_loop_shortest:
  "a \<noteq> b \<Longrightarrow> \<exists>lv. bfs_inv g a b maxDepth lv visited queue \<Longrightarrow>
   shortest_within g a b maxDepth (bfs_loop g b maxDepth visited queue)"
proof (induction g b maxDepth visited queue rule: bfs_loop.induct)
  case (1 g b maxDepth visited)
  then obtain lv where inv: "bfs_inv g a b maxDepth lv visited []" by blast
  have "\<not> (\<exists>q. path_between g a b q \<and> hops q \<le> maxDepth)"
  proof
    assume "\<exists>q. path_between g a b q \<and> hops q \<le> maxDepth"
    then obtain q where "path_between g a b q" "hops q \<le> maxDepth" by blast
    from bfs_frontier [OF inv "1.prems"(1) this] show False by simp
  qed
  then show ?case by (simp add: shortest_within_def)
next
  case (2 g b maxDepth visited node pth queue)
  from "2.prems"(2) obtain lv where
    inv: "bfs_inv g a b maxDepth lv visited ((node, pth) # queue)" by blast
  show ?case
  proof (cases "int (length pth) > maxDepth")
    case True
    have "\<exists>lv. bfs_inv g a b maxDepth lv visited queue"
      using bfs_inv_drop_deep [OF inv True] by blast
    from "2.IH"(1) [OF True "2.prems"(1) this] show ?thesis using True by simp
  next
    case shallow: False
    show ?thesis
    proof (cases "node \<in> visited")
      case True
      have "\<exists>lv. bfs_inv g a b maxDepth lv visited queue"
        using bfs_inv_drop_visited [OF inv True] by blast
      from "2.IH"(2) [OF shallow True "2.prems"(1) this] show ?thesis
        using shallow True by simp
    next
      case fresh: False
      have head: "path_between g a node pth"
        using inv by (simp add: bfs_inv_def)
      then have wp: "walk g pth" "hd pth = a" "last pth = node"
        by (simp_all add: path_between_def)
      have pne: "pth \<noteq> []" using wp(1) by (rule walk_nonempty)
      show ?thesis
      proof (cases "b \<in> set (edgeTargets g node)")
        case True
        have res: "bfs_loop g b maxDepth visited ((node, pth) # queue) = Some (pth @ [b])"
          using shallow fresh True by (simp add: expand_closed)
        have "walk g (pth @ [b])" using walk_snoc [OF wp(1)] True wp(3) by simp
        then have p: "path_between g a b (pth @ [b])"
          using pne wp(2) by (simp add: path_between_def)
        have hp: "hops (pth @ [b]) \<le> maxDepth" using shallow by (simp add: hops_def)
        have "hops (pth @ [b]) \<le> hops q" if q: "path_between g a b q" for q
        proof (cases "hops q \<le> maxDepth")
          case True
          from bfs_frontier [OF inv "2.prems"(1) q True] obtain j e where
            e: "e \<in> set ((node, pth) # queue)" "j + 1 < length q" "length (snd e) \<le> j + 1"
            by blast
          have "length pth \<le> length (snd e)"
            using bfs_inv_head_shortest(1) [OF inv e(1)] .
          then show ?thesis using e(2,3) by (simp add: hops_def)
        next
          case False
          then show ?thesis using hp by simp
        qed
        then show ?thesis using res p hp by (simp add: shortest_within_def)
      next
        case False
        let ?Q = "queue @ map (\<lambda>s. (s, pth @ [s])) (edgeTargets g node)"
        have ex: "expand b pth (edgeTargets g node) queue = Inr ?Q"
          using False by (simp add: expand_closed)
        have "\<exists>lv. bfs_inv g a b maxDepth lv (insert node visited) ?Q"
          using bfs_inv_expand [OF inv fresh False] by blast
        from "2.IH"(3) [OF shallow fresh ex "2.prems"(1) this] show ?thesis
          using shallow fresh ex by simp
      qed
    qed
  qed
qed

lemma bfs_inv_initial: "a \<noteq> b \<Longrightarrow> bfs_inv g a b maxDepth lv {} [(a, [a])]"
  by (simp add: bfs_inv_def path_between_def)

text \<open>
  C3: \<^verbatim>\<open>findPath(from, to, maxDepth)\<close> returns \<open>[from]\<close> when the two names are equal;
  for different names it returns \<^verbatim>\<open>null\<close> when one of them is not registered; and for
  different registered names it returns \<^verbatim>\<open>null\<close> exactly when no path along outgoing edges
  leads from the one to the other within \<open>maxDepth\<close> hops, and otherwise such a path, than
  which no path between the two has fewer hops. (The loop always returns: \<open>bfs_loop\<close> is
  a total function.)
\<close>

theorem findPath_shortest:
  "(a = b \<longrightarrow> findPath g a b maxDepth = Some [a])
   \<and> (a \<noteq> b \<and> (getNode g a = None \<or> getNode g b = None) \<longrightarrow> findPath g a b maxDepth = None)
   \<and> (a \<noteq> b \<and> getNode g a \<noteq> None \<and> getNode g b \<noteq> None \<longrightarrow>
        (case findPath g a b maxDepth of
           None \<Rightarrow> \<not> (\<exists>q. path_between g a b q \<and> hops q \<le> maxDepth)
         | Some p \<Rightarrow>
             path_between g a b p \<and> hops p \<le> maxDepth
             \<and> (\<forall>q. path_between g a b q \<longrightarrow> hops p \<le> hops q)))"
proof (intro conjI impI)
  assume "a = b"
  then show "findPath g a b maxDepth = Some [a]" by (simp add: findPath_def)
next
  assume "a \<noteq> b \<and> (getNode g a = None \<or> getNode g b = None)"
  then show "findPath g a b maxDepth = None" by (auto simp: findPath_def)
next
  assume h: "a \<noteq> b \<and> getNode g a \<noteq> None \<and> getNode g b \<noteq> None"
  then have run: "findPath g a b maxDepth = bfs_loop g b maxDepth {} [(a, [a])]"
    by (auto simp: findPath_def simp del: bfs_loop.simps)
  have "\<exists>lv. bfs_inv g a b maxDepth lv {} [(a, [a])]"
    using bfs_inv_initial [of a b g maxDepth "\<lambda>v. 0"] h by blast
  with h have "shortest_within g a b maxDepth (bfs_loop g b maxDepth {} [(a, [a])])"
    using bfs_loop_shortest by blast
  then show "case findPath g a b maxDepth of
           None \<Rightarrow> \<not> (\<exists>q. path_between g a b q \<and> hops q \<le> maxDepth)
         | Some p \<Rightarrow>
             path_between g a b p \<and> hops p \<le> maxDepth
             \<and> (\<forall>q. path_between g a b q \<longrightarrow> hops p \<le> hops q)"
    by (simp add: run shortest_within_def)
qed

lemma findPath_test_runs:
  "findPath test_schema ''User'' ''Product'' 4 = Some [''User'', ''Order'', ''Product'']"
  "findPath test_schema ''Product'' ''User'' 4 = None"
  "findPath test_schema ''User'' ''Product'' 1 = None"
  "findPath test_schema ''User'' ''User'' 4 = Some [''User'']"
  "findPath test_schema ''User'' ''Isolated'' 4 = None"
  by (simp_all add: findPath_def test_schema_registered edgeTargets_def test_schema_eval getNode_def)

theorem findPath_shortest_witness:
  "findPath test_schema ''User'' ''Product'' 4 = Some [''User'', ''Order'', ''Product'']
   \<and> path_between test_schema ''User'' ''Product'' [''User'', ''Order'', ''Product'']
   \<and> hops [''User'', ''Order'', ''Product''] \<le> 4
   \<and> findPath test_schema ''Product'' ''User'' 4 = None
   \<and> \<not> (\<exists>q. path_between test_schema ''Product'' ''User'' q \<and> hops q \<le> 4)
   \<and> findPath test_schema ''User'' ''Product'' 1 = None
   \<and> \<not> (\<exists>q. path_between test_schema ''User'' ''Product'' q \<and> hops q \<le> 1)
   \<and> findPath test_schema ''User'' ''User'' 4 = Some [''User'']
   \<and> findPath test_schema ''User'' ''Isolated'' 4 = None"
  using findPath_shortest [of "''User''" "''Product''" test_schema 4]
    findPath_shortest [of "''Product''" "''User''" test_schema 4]
    findPath_shortest [of "''User''" "''Product''" test_schema 1]
  by (simp add: findPath_test_runs test_schema_registered)

section \<open>C6: what \<open>create\<close> does to the pool\<close>

lemma evictExpired_loop_filter:
  "evictExpired_loop now ttl es cs
     = filter (\<lambda>e. fst e \<notin> fst ` {x \<in> set es. age_gt (now - createdAt (snd x)) ttl}) cs"
proof (induction es arbitrary: cs)
  case Nil
  then show ?case by simp
next
  case (Cons a es)
  obtain cid c where a: "a = (cid, c)" by (cases a)
  show ?case
  proof (cases "age_gt (now - createdAt c) ttl")
    case True
    have "evictExpired_loop now ttl (a # es) cs =
          filter (\<lambda>e. fst e \<notin> fst ` {x \<in> set es. age_gt (now - createdAt (snd x)) ttl}) (AList.delete cid cs)"
      using True a Cons.IH by simp
    also have "\<dots> = filter (\<lambda>e. fst e \<notin> insert cid (fst ` {x \<in> set es. age_gt (now - createdAt (snd x)) ttl})) cs"
      by (auto simp: AList.delete_eq intro!: filter_cong)
    also have "insert cid (fst ` {x \<in> set es. age_gt (now - createdAt (snd x)) ttl})
               = fst ` {x \<in> set (a # es). age_gt (now - createdAt (snd x)) ttl}"
      using True a by force
    finally show ?thesis .
  next
    case False
    have "evictExpired_loop now ttl (a # es) cs =
          filter (\<lambda>e. fst e \<notin> fst ` {x \<in> set es. age_gt (now - createdAt (snd x)) ttl}) cs"
      using False a Cons.IH by simp
    also have "fst ` {x \<in> set es. age_gt (now - createdAt (snd x)) ttl}
               = fst ` {x \<in> set (a # es). age_gt (now - createdAt (snd x)) ttl}"
      using False a by force
    finally show ?thesis .
  qed
qed

lemma evictExpired_filter:
  assumes "distinct (map fst (cursors m))"
  shows "cursors (evictExpired m now) = filter (\<lambda>e. \<not> isExpired m now (snd e)) (cursors m)"
proof -
  have "\<And>e. e \<in> set (cursors m) \<Longrightarrow>
          (fst e \<notin> fst ` {x \<in> set (cursors m). age_gt (now - createdAt (snd x)) (cursorTTL m)})
          = (\<not> isExpired m now (snd e))"
  proof -
    fix e assume e: "e \<in> set (cursors m)"
    have "\<And>x. x \<in> set (cursors m) \<Longrightarrow> fst x = fst e \<Longrightarrow> x = e"
      using assms e by (metis eq_key_imp_eq_value prod.collapse)
    then show "(fst e \<notin> fst ` {x \<in> set (cursors m). age_gt (now - createdAt (snd x)) (cursorTTL m)})
          = (\<not> isExpired m now (snd e))"
      using e by (auto simp: isExpired_def)
  qed
  then show ?thesis
    by (simp add: evictExpired_def evictExpired_loop_filter cong: filter_cong)
qed


lemma evictOldest_loop_running:
  "\<exists>j. evictOldest_loop es (Some i) (Some t) = Some j
       \<and> ((j = i \<and> (\<forall>x \<in> set es. t \<le> createdAt (snd x)))
          \<or> (\<exists>c. (j, c) \<in> set es \<and> createdAt c < t
                 \<and> (\<forall>x \<in> set es. createdAt c \<le> createdAt (snd x))))"
proof (induction es arbitrary: i t)
  case Nil
  then show ?case by simp
next
  case (Cons a es)
  obtain cid c where a: "a = (cid, c)" by (cases a)
  show ?case
  proof (cases "createdAt c < t")
    case True
    from Cons.IH [of cid "createdAt c"] obtain j where
      j: "evictOldest_loop es (Some cid) (Some (createdAt c)) = Some j"
      and alt: "(j = cid \<and> (\<forall>x \<in> set es. createdAt c \<le> createdAt (snd x)))
          \<or> (\<exists>c'. (j, c') \<in> set es \<and> createdAt c' < createdAt c
                 \<and> (\<forall>x \<in> set es. createdAt c' \<le> createdAt (snd x)))"
      by blast
    have run: "evictOldest_loop (a # es) (Some i) (Some t) = Some j"
      using True a j by simp
    from alt show ?thesis
    proof
      assume "j = cid \<and> (\<forall>x \<in> set es. createdAt c \<le> createdAt (snd x))"
      then have "(j, c) \<in> set (a # es) \<and> createdAt c < t
                 \<and> (\<forall>x \<in> set (a # es). createdAt c \<le> createdAt (snd x))"
        using True a by auto
      with run show ?thesis by blast
    next
      assume "\<exists>c'. (j, c') \<in> set es \<and> createdAt c' < createdAt c
                 \<and> (\<forall>x \<in> set es. createdAt c' \<le> createdAt (snd x))"
      then obtain c' where c': "(j, c') \<in> set es" "createdAt c' < createdAt c"
        "\<forall>x \<in> set es. createdAt c' \<le> createdAt (snd x)" by blast
      then have "(j, c') \<in> set (a # es) \<and> createdAt c' < t
                 \<and> (\<forall>x \<in> set (a # es). createdAt c' \<le> createdAt (snd x))"
        using True a by auto
      with run show ?thesis by blast
    qed
  next
    case False
    from Cons.IH [of i t] obtain j where
      j: "evictOldest_loop es (Some i) (Some t) = Some j"
      and alt: "(j = i \<and> (\<forall>x \<in> set es. t \<le> createdAt (snd x)))
          \<or> (\<exists>c'. (j, c') \<in> set es \<and> createdAt c' < t
                 \<and> (\<forall>x \<in> set es. createdAt c' \<le> createdAt (snd x)))"
      by blast
    have run: "evictOldest_loop (a # es) (Some i) (Some t) = Some j"
      using False a j by simp
    from alt show ?thesis
    proof
      assume "j = i \<and> (\<forall>x \<in> set es. t \<le> createdAt (snd x))"
      then have "j = i \<and> (\<forall>x \<in> set (a # es). t \<le> createdAt (snd x))"
        using False a by auto
      with run show ?thesis by blast
    next
      assume "\<exists>c'. (j, c') \<in> set es \<and> createdAt c' < t
                 \<and> (\<forall>x \<in> set es. createdAt c' \<le> createdAt (snd x))"
      then obtain c' where c': "(j, c') \<in> set es" "createdAt c' < t"
        "\<forall>x \<in> set es. createdAt c' \<le> createdAt (snd x)" by blast
      then have "(j, c') \<in> set (a # es) \<and> createdAt c' < t
                 \<and> (\<forall>x \<in> set (a # es). createdAt c' \<le> createdAt (snd x))"
        using False a by auto
      with run show ?thesis by blast
    qed
  qed
qed

lemma evictOldest_loop_oldest:
  assumes "es \<noteq> []"
  shows "\<exists>e. oldest_in e es \<and> evictOldest_loop es None None = Some (fst e)"
proof -
  from assms obtain cid c rest where es: "es = (cid, c) # rest"
    by (cases es) auto
  from evictOldest_loop_running [of rest cid "createdAt c"] obtain j where
    j: "evictOldest_loop rest (Some cid) (Some (createdAt c)) = Some j"
    and alt: "(j = cid \<and> (\<forall>x \<in> set rest. createdAt c \<le> createdAt (snd x)))
          \<or> (\<exists>c'. (j, c') \<in> set rest \<and> createdAt c' < createdAt c
                 \<and> (\<forall>x \<in> set rest. createdAt c' \<le> createdAt (snd x)))"
    by blast
  have run: "evictOldest_loop es None None = Some j"
    using es j by simp
  from alt show ?thesis
  proof
    assume "j = cid \<and> (\<forall>x \<in> set rest. createdAt c \<le> createdAt (snd x))"
    then have "oldest_in (cid, c) es" and "j = cid"
      using es by (auto simp: oldest_in_def)
    moreover have "evictOldest_loop es None None = Some (fst (cid, c))"
      using run \<open>j = cid\<close> by simp
    ultimately show ?thesis by blast
  next
    assume "\<exists>c'. (j, c') \<in> set rest \<and> createdAt c' < createdAt c
                 \<and> (\<forall>x \<in> set rest. createdAt c' \<le> createdAt (snd x))"
    then obtain c' where c': "(j, c') \<in> set rest" "createdAt c' < createdAt c"
        "\<forall>x \<in> set rest. createdAt c' \<le> createdAt (snd x)" by blast
    then have "oldest_in (j, c') es"
      using es by (auto simp: oldest_in_def)
    moreover have "evictOldest_loop es None None = Some (fst (j, c'))"
      using run by simp
    ultimately show ?thesis by blast
  qed
qed

lemma delete_distinct_remove1:
  "distinct (map fst es) \<Longrightarrow> e \<in> set es \<Longrightarrow> AList.delete (fst e) es = remove1 e es"
proof (induction es)
  case Nil
  then show ?case by simp
next
  case (Cons a es)
  show ?case
  proof (cases "a = e")
    case True
    have "fst e \<notin> fst ` set es" using Cons.prems True by auto
    then have "AList.delete (fst e) es = es"
      by (simp add: AList.delete_eq filter_id_conv) (force simp: image_iff)
    with True show ?thesis by (cases e) (simp add: AList.delete_eq)
  next
    case False
    then have mem: "e \<in> set es" using Cons.prems by auto
    have "fst a \<noteq> fst e" using Cons.prems mem by (cases a, cases e) force
    with False Cons.IH Cons.prems mem show ?thesis
      by (cases a) (simp add: AList.delete_eq)
  qed
qed

lemma evictOldest_removes_oldest:
  assumes "distinct (map fst (cursors m))" and "[] \<notin> fst ` set (cursors m)"
    and "cursors m \<noteq> []"
  shows "\<exists>e. oldest_in e (cursors m) \<and> cursors (evictOldest m) = remove1 e (cursors m)"
proof -
  from evictOldest_loop_oldest [OF assms(3)] obtain e where
    e: "oldest_in e (cursors m)" "evictOldest_loop (cursors m) None None = Some (fst e)"
    by blast
  have mem: "e \<in> set (cursors m)" using e(1) by (simp add: oldest_in_def)
  then have "fst e \<noteq> []" using assms(2) by force
  then have "cursors (evictOldest m) = AList.delete (fst e) (cursors m)"
    using e(2) by (simp add: evictOldest_def Let_def)
  then have "cursors (evictOldest m) = remove1 e (cursors m)"
    using delete_distinct_remove1 [OF assms(1) mem] by simp
  with e(1) show ?thesis by blast
qed

lemma evictExpired_fields [simp]:
  "maxCursors (evictExpired m now) = maxCursors m"
  "cursorTTL (evictExpired m now) = cursorTTL m"
  "cm_maxPathLength (evictExpired m now) = cm_maxPathLength m"
  by (simp_all add: evictExpired_def)

lemma evictOldest_fields [simp]:
  "maxCursors (evictOldest m) = maxCursors m"
  "cursorTTL (evictOldest m) = cursorTTL m"
  "cm_maxPathLength (evictOldest m) = cm_maxPathLength m"
  by (simp_all add: evictOldest_def Let_def)

lemma new_cursor_id [simp]: "cursor_id (new_cursor g cid now startNode mpl) = cid"
  by (simp add: new_cursor_def Let_def)

lemma length_update_le: "length (AList.update k v al) \<le> Suc (length al)"
  by (induction al) auto

text \<open>
  C6, as stated, fails in two ways. With a capacity of zero the sweep and the eviction
  find nothing to remove in an empty pool and the new cursor is registered all the same:
  the pool holds one cursor. With a capacity of \<open>1.5\<close> a pool of one unexpired cursor is
  below capacity, nothing is evicted, and the pool holds two cursors afterwards.
\<close>

theorem create_counterexample:
  "pool_size (fst (create (new_manager (Finite 0) (Finite 1800000) 100) test_schema 0 ''0'' ''a''
       0 None)) = 1
   \<and> \<not> at_most
         (pool_size (fst (create (new_manager (Finite 0) (Finite 1800000) 100) test_schema 0 ''0''
            ''a'' 0 None)))
         (maxCursors (fst (create (new_manager (Finite 0) (Finite 1800000) 100) test_schema 0
            ''0'' ''a'' 0 None)))
   \<and> pool_size (fst (create (new_manager (Finite 1.5) (Finite 1800000) 100) test_schema 1 ''1''
         ''a'' 1 None)) = 1
   \<and> map fst (cursors (fst (create
          (fst (create (new_manager (Finite 1.5) (Finite 1800000) 100) test_schema 1 ''1'' ''a''
             1 None))
          test_schema 2 ''2'' ''b'' 2 None)))
       = [''cursor_1_a'', ''cursor_2_b'']
   \<and> \<not> at_most
         (pool_size (fst (create
            (fst (create (new_manager (Finite 1.5) (Finite 1800000) 100) test_schema 1 ''1''
               ''a'' 1 None))
            test_schema 2 ''2'' ''b'' 2 None)))
         (maxCursors (fst (create
            (fst (create (new_manager (Finite 1.5) (Finite 1800000) 100) test_schema 1 ''1''
               ''a'' 1 None))
            test_schema 2 ''2'' ''b'' 2 None)))"
  by (simp add: create_def Let_def new_manager_def evictExpired_def pool_size_def evictOldest_def
      generateCursorId_def new_cursor_def)

text \<open>
  C6 (amended): on a pool whose identifiers are distinct and non-empty (as
  \<^verbatim>\<open>generateCursorId\<close> makes them), \<^verbatim>\<open>create\<close> first removes exactly the cursors whose age
  exceeds the time to live; if the pool is then still at capacity and not empty, it
  removes exactly one cursor, one with the oldest creation time, and otherwise none; then
  it registers the new cursor under its identifier. When the capacity is a whole number
  of at least one, or \<^verbatim>\<open>Infinity\<close>, and the pool did not exceed it before, the pool does not
  exceed it afterwards.
\<close>

theorem create_sweeps_evicts_registers:
  assumes keys: "distinct (map fst (cursors m))"
    and ids: "[] \<notin> fst ` set (cursors m)"
  shows "cursors (evictExpired m now) = filter (\<lambda>e. \<not> isExpired m now (snd e)) (cursors m)
       \<and> (count_ge (pool_size (evictExpired m now)) (maxCursors m)
            \<and> cursors (evictExpired m now) \<noteq> [] \<longrightarrow>
            (\<exists>e. oldest_in e (cursors (evictExpired m now))
               \<and> cursors (fst (create m g now stamp rnd ctime startNode))
                   = AList.update (generateCursorId stamp rnd)
                       (snd (create m g now stamp rnd ctime startNode))
                       (remove1 e (cursors (evictExpired m now)))))
       \<and> (\<not> count_ge (pool_size (evictExpired m now)) (maxCursors m)
            \<or> cursors (evictExpired m now) = [] \<longrightarrow>
            cursors (fst (create m g now stamp rnd ctime startNode))
              = AList.update (generateCursorId stamp rnd)
                  (snd (create m g now stamp rnd ctime startNode))
                  (cursors (evictExpired m now)))
       \<and> map_of (cursors (fst (create m g now stamp rnd ctime startNode)))
            (generateCursorId stamp rnd)
           = Some (snd (create m g now stamp rnd ctime startNode))
       \<and> (whole_at_least_one (maxCursors m) \<and> at_most (pool_size m) (maxCursors m) \<longrightarrow>
            at_most (pool_size (fst (create m g now stamp rnd ctime startNode))) (maxCursors m))"
proof -
  let ?m1 = "evictExpired m now"
  let ?r = "create m g now stamp rnd ctime startNode"
  let ?id = "generateCursorId stamp rnd"
  have swept: "cursors ?m1 = filter (\<lambda>e. \<not> isExpired m now (snd e)) (cursors m)"
    by (rule evictExpired_filter [OF keys])
  have keys1: "distinct (map fst (cursors ?m1))"
    using keys by (simp add: swept distinct_map_filter)
  have ids1: "[] \<notin> fst ` set (cursors ?m1)"
    using ids by (auto simp: swept)
  have len1: "length (cursors ?m1) \<le> length (cursors m)"
    by (simp add: swept)
  have full: "count_ge (pool_size ?m1) (maxCursors m) \<and> cursors ?m1 \<noteq> [] \<longrightarrow>
            (\<exists>e. oldest_in e (cursors ?m1)
               \<and> cursors (fst ?r) = AList.update ?id (snd ?r) (remove1 e (cursors ?m1)))"
  proof
    assume a: "count_ge (pool_size ?m1) (maxCursors m) \<and> cursors ?m1 \<noteq> []"
    then have at_cap: "count_ge (pool_size ?m1) (maxCursors m)" and ne: "cursors ?m1 \<noteq> []"
      by simp_all
    from evictOldest_removes_oldest [OF keys1 ids1 ne] obtain e where
      e: "oldest_in e (cursors ?m1)" "cursors (evictOldest ?m1) = remove1 e (cursors ?m1)"
      by blast
    have "cursors (fst ?r) = AList.update ?id (snd ?r) (remove1 e (cursors ?m1))"
      using at_cap e(2) by (simp add: create_def Let_def)
    with e(1) show "\<exists>e. oldest_in e (cursors ?m1)
               \<and> cursors (fst ?r) = AList.update ?id (snd ?r) (remove1 e (cursors ?m1))"
      by blast
  qed
  have none: "cursors ?m1 = [] \<Longrightarrow> cursors (evictOldest ?m1) = cursors ?m1"
    by (simp add: evictOldest_def Let_def)
  have room: "\<not> count_ge (pool_size ?m1) (maxCursors m) \<or> cursors ?m1 = [] \<longrightarrow>
            cursors (fst ?r) = AList.update ?id (snd ?r) (cursors ?m1)"
  proof
    assume a: "\<not> count_ge (pool_size ?m1) (maxCursors m) \<or> cursors ?m1 = []"
    show "cursors (fst ?r) = AList.update ?id (snd ?r) (cursors ?m1)"
    proof (cases "count_ge (pool_size ?m1) (maxCursors m)")
      case True
      with a have "cursors ?m1 = []" by simp
      from none [OF this] True show ?thesis by (simp add: create_def Let_def)
    next
      case False
      then show ?thesis by (simp add: create_def Let_def)
    qed
  qed
  have reg: "map_of (cursors (fst ?r)) ?id = Some (snd ?r)"
    by (simp add: create_def Let_def update_conv')
  have size: "whole_at_least_one (maxCursors m) \<and> at_most (pool_size m) (maxCursors m) \<longrightarrow>
            at_most (pool_size (fst ?r)) (maxCursors m)"
  proof
    assume a: "whole_at_least_one (maxCursors m) \<and> at_most (pool_size m) (maxCursors m)"
    show "at_most (pool_size (fst ?r)) (maxCursors m)"
    proof (cases "maxCursors m")
      case (Finite x)
      with a have cap: "1 \<le> x" and whole: "of_int \<lfloor>x\<rfloor> = x"
        and within: "real (pool_size m) \<le> x"
        by simp_all
      have "real (pool_size (fst ?r)) \<le> x"
      proof (cases "x \<le> real (pool_size ?m1)")
        case True
        then have at_cap: "count_ge (pool_size ?m1) (maxCursors m)" by (simp add: Finite)
        from True cap have "0 < real (pool_size ?m1)" by linarith
        then have ne: "cursors ?m1 \<noteq> []" by (auto simp: pool_size_def)
        with at_cap full obtain e where e: "oldest_in e (cursors ?m1)"
          "cursors (fst ?r) = AList.update ?id (snd ?r) (remove1 e (cursors ?m1))" by blast
        have mem: "e \<in> set (cursors ?m1)" using e(1) by (simp add: oldest_in_def)
        then have "length (remove1 e (cursors ?m1)) = length (cursors ?m1) - 1"
          by (simp add: length_remove1)
        moreover have "length (cursors ?m1) \<ge> 1"
          using mem by (cases "cursors ?m1") auto
        ultimately have "Suc (length (remove1 e (cursors ?m1))) \<le> length (cursors m)"
          using len1 by simp
        moreover have "length (AList.update ?id (snd ?r) (remove1 e (cursors ?m1)))
                       \<le> Suc (length (remove1 e (cursors ?m1)))"
          by (rule length_update_le)
        ultimately have "length (cursors (fst ?r)) \<le> length (cursors m)"
          by (simp add: e(2))
        then have "real (pool_size (fst ?r)) \<le> real (pool_size m)"
          by (simp add: pool_size_def)
        with within show ?thesis by simp
      next
        case False
        then have "\<not> count_ge (pool_size ?m1) (maxCursors m)" by (simp add: Finite)
        then have upd: "cursors (fst ?r) = AList.update ?id (snd ?r) (cursors ?m1)"
          using room by simp
        have "length (AList.update ?id (snd ?r) (cursors ?m1)) \<le> Suc (length (cursors ?m1))"
          by (rule length_update_le)
        then have le: "pool_size (fst ?r) \<le> Suc (pool_size ?m1)"
          by (simp add: pool_size_def upd)
        from False have "real (pool_size ?m1) < of_int \<lfloor>x\<rfloor>" by (simp add: whole)
        then have "int (pool_size ?m1) < \<lfloor>x\<rfloor>" by linarith
        then have "int (Suc (pool_size ?m1)) \<le> \<lfloor>x\<rfloor>" by simp
        then have "real (Suc (pool_size ?m1)) \<le> of_int \<lfloor>x\<rfloor>" by linarith
        then have "real (Suc (pool_size ?m1)) \<le> x" by (simp only: whole)
        moreover from le have "real (pool_size (fst ?r)) \<le> real (Suc (pool_size ?m1))"
          by (rule iffD2 [OF of_nat_le_iff])
        ultimately show ?thesis by (rule order_trans [rotated])
      qed
      then show ?thesis by (simp add: Finite)
    next
      case PosInfinity
      then show ?thesis by simp
    next
      case NegInfinity
      with a show ?thesis by simp
    next
      case NaN
      with a show ?thesis by simp
    qed
  qed
  from swept full room reg size show ?thesis by blast
qed

text \<open>
  The shape that the theorem asks of the pool is kept by \<^verbatim>\<open>create\<close>, which is the only
  operation that adds a cursor: identifiers stay distinct and non-empty.
\<close>

lemma create_keeps_pool_shape:
  assumes keys: "distinct (map fst (cursors m))"
    and ids: "[] \<notin> fst ` set (cursors m)"
  shows "distinct (map fst (cursors (fst (create m g now stamp rnd ctime startNode))))
       \<and> [] \<notin> fst ` set (cursors (fst (create m g now stamp rnd ctime startNode)))"
proof -
  let ?m1 = "evictExpired m now"
  let ?m2 = "if count_ge (pool_size ?m1) (maxCursors ?m1) then evictOldest ?m1 else ?m1"
  let ?id = "generateCursorId stamp rnd"
  have swept: "cursors ?m1 = filter (\<lambda>e. \<not> isExpired m now (snd e)) (cursors m)"
    by (rule evictExpired_filter [OF keys])
  have keys1: "distinct (map fst (cursors ?m1))"
    using keys by (simp add: swept distinct_map_filter)
  have ids1: "[] \<notin> fst ` set (cursors ?m1)"
    using ids by (auto simp: swept)
  have old: "cursors (evictOldest ?m1) = cursors ?m1
             \<or> (\<exists>k. cursors (evictOldest ?m1) = AList.delete k (cursors ?m1))"
    by (auto simp: evictOldest_def Let_def)
  have keys2: "distinct (map fst (cursors ?m2))"
    using keys1 old by (auto simp: distinct_delete)
  have ids2: "[] \<notin> fst ` set (cursors ?m2)"
    using ids1 old by (auto simp: AList.delete_eq)
  have res: "cursors (fst (create m g now stamp rnd ctime startNode))
               = AList.update ?id (new_cursor g ?id ctime startNode (cm_maxPathLength ?m2))
                   (cursors ?m2)"
    by (simp add: create_def Let_def)
  have "?id \<noteq> []" by (simp add: generateCursorId_def)
  then have "[] \<notin> fst ` set (AList.update ?id
                 (new_cursor g ?id ctime startNode (cm_maxPathLength ?m2)) (cursors ?m2))"
    using ids2 by (simp add: dom_update)
  moreover have "distinct (map fst (AList.update ?id
                 (new_cursor g ?id ctime startNode (cm_maxPathLength ?m2)) (cursors ?m2)))"
    using keys2 by (rule distinct_update)
  ultimately show ?thesis unfolding res by blast
qed

lemma three_pool_eval:
  "three_pool =
     \<lparr>cursors = [(''cursor_1_a'', new_cursor test_schema ''cursor_1_a'' 1 None 100),
                 (''cursor_2_b'', new_cursor test_schema ''cursor_2_b'' 2 None 100),
                 (''cursor_3_c'', new_cursor test_schema ''cursor_3_c'' 3 None 100)],
      maxCursors = Finite 3, cursorTTL = Finite 1800000, cm_maxPathLength = 100\<rparr>"
  by (simp add: three_pool_def create_def Let_def new_manager_def evictExpired_def
      pool_size_def generateCursorId_def new_cursor_def)

lemma three_pool_swept:
  "cursors (evictExpired three_pool 4) = cursors three_pool"
  by (simp add: three_pool_eval evictExpired_def new_cursor_def)

theorem create_sweeps_evicts_registers_witness:
  "distinct (map fst (cursors three_pool))
   \<and> [] \<notin> fst ` set (cursors three_pool)
   \<and> count_ge (pool_size (evictExpired three_pool 4)) (maxCursors three_pool)
   \<and> cursors (evictExpired three_pool 4) \<noteq> []
   \<and> whole_at_least_one (maxCursors three_pool)
   \<and> at_most (pool_size three_pool) (maxCursors three_pool)
   \<and> at_most (pool_size (fst (create three_pool test_schema 4 ''4'' ''d'' 4 None)))
       (maxCursors three_pool)
   \<and> pool_size (fst (create three_pool test_schema 4 ''4'' ''d'' 4 None)) = 3
   \<and> map fst (cursors (fst (create three_pool test_schema 4 ''4'' ''d'' 4 None)))
       = [''cursor_2_b'', ''cursor_3_c'', ''cursor_4_d'']
   \<and> \<not> count_ge (pool_size (evictExpired (new_manager (Finite 3) (Finite 1800000) 100) 1))
         (maxCursors (new_manager (Finite 3) (Finite 1800000) 100))
   \<and> map fst (cursors (fst (create (new_manager (Finite 3) (Finite 1800000) 100) test_schema 1
         ''1'' ''a'' 1 None)))
       = [''cursor_1_a'']"
proof -
  have keys: "distinct (map fst (cursors three_pool))"
    by (simp add: three_pool_eval)
  have ids: "[] \<notin> fst ` set (cursors three_pool)"
    by (simp add: three_pool_eval)
  have at_cap: "count_ge (pool_size (evictExpired three_pool 4)) (maxCursors three_pool)"
    "cursors (evictExpired three_pool 4) \<noteq> []"
    by (simp_all add: pool_size_def three_pool_swept) (simp_all add: three_pool_eval)
  have cap: "whole_at_least_one (maxCursors three_pool)"
    "at_most (pool_size three_pool) (maxCursors three_pool)"
    by (simp_all add: three_pool_eval pool_size_def)
  have bound: "at_most (pool_size (fst (create three_pool test_schema 4 ''4'' ''d'' 4 None)))
                 (maxCursors three_pool)"
    using create_sweeps_evicts_registers [OF keys ids, of 4 test_schema "''4''" "''d''" 4 None]
      cap by blast
  have run: "map fst (cursors (fst (create three_pool test_schema 4 ''4'' ''d'' 4 None)))
               = [''cursor_2_b'', ''cursor_3_c'', ''cursor_4_d'']"
    by (simp add: three_pool_eval create_def Let_def evictExpired_def pool_size_def
        evictOldest_def generateCursorId_def new_cursor_def)
  have "length (map fst (cursors (fst (create three_pool test_schema 4 ''4'' ''d'' 4 None)))) = 3"
    unfolding run by simp
  then have sz: "pool_size (fst (create three_pool test_schema 4 ''4'' ''d'' 4 None)) = 3"
    by (simp add: pool_size_def)
  let ?e = "new_manager (Finite 3) (Finite 1800000) 100"
  have empty: "distinct (map fst (cursors ?e))" "[] \<notin> fst ` set (cursors ?e)"
    "\<not> count_ge (pool_size (evictExpired ?e 1)) (maxCursors ?e)"
    by (simp_all add: new_manager_def evictExpired_def pool_size_def)
  have "cursors (fst (create ?e test_schema 1 ''1'' ''a'' 1 None))
          = AList.update (generateCursorId ''1'' ''a'')
              (snd (create ?e test_schema 1 ''1'' ''a'' 1 None))
              (cursors (evictExpired ?e 1))"
    using create_sweeps_evicts_registers [OF empty(1) empty(2), of 1 test_schema "''1''" "''a''"
        1 None] empty(3)
    by blast
  then have first: "map fst (cursors (fst (create ?e test_schema 1 ''1'' ''a'' 1 None)))
                    = [''cursor_1_a'']"
    by (simp add: new_manager_def evictExpired_def generateCursorId_def)
  from keys ids at_cap cap bound sz run empty(3) first show ?thesis by blast
qed

section \<open>C5: the neighbours of a node\<close>

subsection \<open>The two loops in closed form\<close>

lemma map_filter_Cons_Some: "f x = Some y \<Longrightarrow> List.map_filter f (x # xs) = y # List.map_filter f xs"
  by (simp add: List.map_filter_def)

lemma map_filter_Cons_None: "f x = None \<Longrightarrow> List.map_filter f (x # xs) = List.map_filter f xs"
  by (simp add: List.map_filter_def)

lemma map_filter_Nil2: "List.map_filter f [] = []"
  by (simp add: List.map_filter_def)

lemma at_limit_iff: "count_ge k (Finite x) = (nat \<lceil>x\<rceil> \<le> k)"
proof -
  have "(x \<le> real k) = (\<lceil>x\<rceil> \<le> int k)" by (simp add: ceiling_le_iff)
  also have "\<dots> = (nat \<lceil>x\<rceil> \<le> k)" by (rule nat_le_iff [symmetric])
  finally show ?thesis by simp
qed

lemma forward_loop_bounded:
  assumes stop: "\<And>k. count_ge k limit = (K \<le> k)"
  shows "forward_loop g limit ts acc
           = acc @ take (K - length acc) (List.map_filter (getNode g) ts)"
proof (induction ts arbitrary: acc)
  case Nil
  then show ?case by (simp add: map_filter_Nil2)
next
  case (Cons t ts)
  show ?case
  proof (cases "K \<le> length acc")
    case True
    then show ?thesis by (simp add: stop)
  next
    case False
    show ?thesis
    proof (cases "getNode g t")
      case None
      then show ?thesis using False Cons.IH [of acc] by (simp add: stop map_filter_Cons_None)
    next
      case (Some y)
      from False obtain k where k: "K - length acc = Suc k"
        by (cases "K - length acc") auto
      then have k': "K - length (acc @ [y]) = k" by simp
      show ?thesis
        using False Some Cons.IH [of "acc @ [y]"] k k'
        by (simp add: stop map_filter_Cons_Some)
    qed
  qed
qed

lemma forward_loop_finite:
  "forward_loop g (Finite x) ts acc
     = acc @ take (nat \<lceil>x\<rceil> - length acc) (List.map_filter (getNode g) ts)"
  by (rule forward_loop_bounded) (rule at_limit_iff)

lemma forward_loop_unbounded:
  "forward_loop g PosInfinity ts acc = acc @ List.map_filter (getNode g) ts"
proof (induction ts arbitrary: acc)
  case Nil
  then show ?case by (simp add: map_filter_Nil2)
next
  case (Cons t ts)
  then show ?case
    by (cases "getNode g t") (simp_all add: map_filter_Cons_None map_filter_Cons_Some)
qed

lemma reverse_loop_bounded:
  assumes stop: "\<And>k. count_ge k limit = (K \<le> k)"
  shows "distinct (reverse_candidates g n es) \<Longrightarrow>
         reverse_loop g n limit es acc
           = acc @ take (K - length acc)
                     (filter (\<lambda>y. y \<notin> set acc) (reverse_candidates g n es))"
proof (induction es arbitrary: acc)
  case Nil
  then show ?case by (simp add: reverse_candidates_def map_filter_Nil2)
next
  case (Cons e es)
  obtain s ts where e: "e = (s, ts)" by (cases e)
  let ?f = "\<lambda>e. if n \<in> set (snd e) \<and> fst e \<noteq> n then getNode g (fst e) else None"
  show ?case
  proof (cases "K \<le> length acc")
    case True
    with e show ?thesis by (simp add: stop)
  next
    case False
    show ?thesis
    proof (cases "?f e")
      case None
      then have rc: "reverse_candidates g n (e # es) = reverse_candidates g n es"
        by (simp add: reverse_candidates_def map_filter_Cons_None)
      have step: "reverse_loop g n limit (e # es) acc = reverse_loop g n limit es acc"
        using None False e by (auto simp: stop split: option.splits if_splits)
      show ?thesis using Cons.IH [of acc] Cons.prems rc step by simp
    next
      case (Some y)
      then have rc: "reverse_candidates g n (e # es) = y # reverse_candidates g n es"
        by (simp add: reverse_candidates_def map_filter_Cons_Some)
      then have dist: "distinct (reverse_candidates g n es)"
        and fresh: "y \<notin> set (reverse_candidates g n es)"
        using Cons.prems by auto
      from Some have cond: "n \<in> set ts" "s \<noteq> n" "getNode g s = Some y"
        using e by (auto split: if_splits)
      show ?thesis
      proof (cases "y \<in> set acc")
        case True
        then have step: "reverse_loop g n limit (e # es) acc = reverse_loop g n limit es acc"
          using cond False e by (simp add: stop)
        show ?thesis using Cons.IH [OF dist, of acc] rc step True by simp
      next
        case nin: False
        then have step: "reverse_loop g n limit (e # es) acc
                         = reverse_loop g n limit es (acc @ [y])"
          using cond False e by (simp add: stop)
        from False obtain k where k: "K - length acc = Suc k"
          by (cases "K - length acc") auto
        then have k': "K - length (acc @ [y]) = k" by simp
        have fil: "filter (\<lambda>z. z \<notin> set (acc @ [y])) (reverse_candidates g n es)
                   = filter (\<lambda>z. z \<notin> set acc) (reverse_candidates g n es)"
          using fresh by (auto intro!: filter_cong)
        show ?thesis
          using Cons.IH [OF dist, of "acc @ [y]"] rc step nin k k' fil by simp
      qed
    qed
  qed
qed

lemma reverse_loop_finite:
  "distinct (reverse_candidates g n es) \<Longrightarrow>
   reverse_loop g n (Finite x) es acc
     = acc @ take (nat \<lceil>x\<rceil> - length acc)
               (filter (\<lambda>y. y \<notin> set acc) (reverse_candidates g n es))"
  by (rule reverse_loop_bounded) (rule at_limit_iff)

lemma reverse_loop_unbounded:
  "distinct (reverse_candidates g n es) \<Longrightarrow>
   reverse_loop g n PosInfinity es acc
     = acc @ filter (\<lambda>y. y \<notin> set acc) (reverse_candidates g n es)"
proof (induction es arbitrary: acc)
  case Nil
  then show ?case by (simp add: reverse_candidates_def map_filter_Nil2)
next
  case (Cons e es)
  obtain s ts where e: "e = (s, ts)" by (cases e)
  let ?f = "\<lambda>e. if n \<in> set (snd e) \<and> fst e \<noteq> n then getNode g (fst e) else None"
  show ?case
  proof (cases "?f e")
    case None
    then have rc: "reverse_candidates g n (e # es) = reverse_candidates g n es"
      by (simp add: reverse_candidates_def map_filter_Cons_None)
    have step: "reverse_loop g n PosInfinity (e # es) acc = reverse_loop g n PosInfinity es acc"
      using None e by (auto split: option.splits if_splits)
    show ?thesis using Cons.IH [of acc] Cons.prems rc step by simp
  next
    case (Some y)
    then have rc: "reverse_candidates g n (e # es) = y # reverse_candidates g n es"
      by (simp add: reverse_candidates_def map_filter_Cons_Some)
    then have dist: "distinct (reverse_candidates g n es)"
      and fresh: "y \<notin> set (reverse_candidates g n es)"
      using Cons.prems by auto
    from Some have cond: "n \<in> set ts" "s \<noteq> n" "getNode g s = Some y"
      using e by (auto split: if_splits)
    show ?thesis
    proof (cases "y \<in> set acc")
      case True
      then have step: "reverse_loop g n PosInfinity (e # es) acc
                       = reverse_loop g n PosInfinity es acc"
        using cond e by simp
      show ?thesis using Cons.IH [OF dist, of acc] rc step True by simp
    next
      case nin: False
      then have step: "reverse_loop g n PosInfinity (e # es) acc
                       = reverse_loop g n PosInfinity es (acc @ [y])"
        using cond e by simp
      have fil: "filter (\<lambda>z. z \<notin> set (acc @ [y])) (reverse_candidates g n es)
                 = filter (\<lambda>z. z \<notin> set acc) (reverse_candidates g n es)"
        using fresh by (auto intro!: filter_cong)
      show ?thesis
        using Cons.IH [OF dist, of "acc @ [y]"] rc step nin fil by simp
    qed
  qed
qed

subsection \<open>The neighbours that the edge index gives\<close>

lemma getNode_name: "index_ok g \<Longrightarrow> getNode g k = Some x \<Longrightarrow> node_name x = k"
  by (auto simp: index_ok_def getNode_def dest!: map_of_SomeD)

lemma edgeTargets_distinct: "index_ok g \<Longrightarrow> distinct (edgeTargets g n)"
  by (auto simp: index_ok_def edgeTargets_def split: option.splits dest!: map_of_SomeD)

lemma names_of_map_filter:
  assumes "\<And>k x. getNode g k = Some x \<Longrightarrow> node_name x = k"
  shows "map node_name (List.map_filter (getNode g) ts) = filter (\<lambda>t. getNode g t \<noteq> None) ts"
proof (induction ts)
  case Nil
  then show ?case by (simp add: map_filter_Nil2)
next
  case (Cons t ts)
  then show ?case
    by (cases "getNode g t") (auto simp: map_filter_Cons_None map_filter_Cons_Some assms)
qed

lemma index_forward_names:
  "index_ok g \<Longrightarrow>
   map node_name (index_forward g n) = filter (\<lambda>t. getNode g t \<noteq> None) (edgeTargets g n)"
  unfolding index_forward_def
  by (rule names_of_map_filter) (rule getNode_name)

lemma index_forward_distinct: "index_ok g \<Longrightarrow> distinct (index_forward g n)"
  using index_forward_names [of g n] edgeTargets_distinct [of g n]
  by (metis distinct_filter distinct_map)

lemma reverse_candidates_names:
  assumes "index_ok g"
  shows "map node_name (reverse_candidates g n es)
         = map fst (filter (\<lambda>e. n \<in> set (snd e) \<and> fst e \<noteq> n \<and> getNode g (fst e) \<noteq> None) es)"
proof (induction es)
  case Nil
  then show ?case by (simp add: reverse_candidates_def map_filter_Nil2)
next
  case (Cons e es)
  let ?f = "\<lambda>e. if n \<in> set (snd e) \<and> fst e \<noteq> n then getNode g (fst e) else None"
  show ?case
  proof (cases "?f e")
    case None
    then have "reverse_candidates g n (e # es) = reverse_candidates g n es"
      by (simp add: reverse_candidates_def map_filter_Cons_None)
    with None Cons.IH show ?thesis by (auto split: if_splits)
  next
    case (Some x)
    then have "reverse_candidates g n (e # es) = x # reverse_candidates g n es"
      by (simp add: reverse_candidates_def map_filter_Cons_Some)
    moreover from Some have "getNode g (fst e) = Some x" "n \<in> set (snd e)" "fst e \<noteq> n"
      by (auto split: if_splits)
    moreover from this have "node_name x = fst e" using getNode_name [OF assms] by blast
    ultimately show ?thesis using Cons.IH by simp
  qed
qed

lemma reverse_candidates_distinct:
  assumes "index_ok g"
  shows "distinct (reverse_candidates g n (edgeIndex g))"
proof -
  have "distinct (map fst (edgeIndex g))" using assms by (simp add: index_ok_def)
  then have "distinct (map node_name (reverse_candidates g n (edgeIndex g)))"
    by (simp add: reverse_candidates_names [OF assms] distinct_map_filter)
  then show ?thesis by (simp add: distinct_map)
qed

lemma index_reverse_distinct: "index_ok g \<Longrightarrow> distinct (index_reverse g n)"
  using reverse_candidates_distinct [of g n] by (simp add: index_reverse_def)

lemma floor_le_ceiling_nat: "nat \<lfloor>x::real\<rfloor> \<le> nat \<lceil>x\<rceil>"
  by (rule nat_mono) linarith

lemma take_two_stage:
  assumes "J \<le> K"
  shows "take J (take K F @ take (K - length (take K F)) (filter (\<lambda>y. y \<notin> set (take K F)) C))
         = take J (F @ filter (\<lambda>y. y \<notin> set F) C)"
proof (cases "K \<le> length F")
  case True
  then have "length (take K F) = K" by simp
  then have "take J (take K F @ take (K - length (take K F))
                 (filter (\<lambda>y. y \<notin> set (take K F)) C)) = take J (take K F)"
    by simp
  also have "\<dots> = take J F" using assms by (simp add: min_def)
  also have "\<dots> = take J (F @ filter (\<lambda>y. y \<notin> set F) C)" using assms True by simp
  finally show ?thesis .
next
  case False
  then have "take K F = F" by simp
  then show ?thesis using assms by (simp add: min_def)
qed

lemma slice0_ge_zero: "0 \<le> x \<Longrightarrow> slice0 xs (Finite x) = take (nat \<lfloor>x\<rfloor>) xs"
  by (simp add: Let_def)

lemma getNeighbors_closed:
  assumes ok: "index_ok g" and reg: "getNode g n = Some nd" and lim: "limit_ge_zero limit"
  shows "getNeighbors g n limit = up_to_limit limit (index_forward g n @ index_reverse g n)"
proof (cases limit)
  case (Finite x)
  with lim have x: "0 \<le> x" by simp
  let ?F = "index_forward g n"
  have fwd: "forward_loop g (Finite x) (edgeTargets g n) [] = take (nat \<lceil>x\<rceil>) ?F"
    by (simp only: forward_loop_finite index_forward_def append_Nil list.size diff_zero)
  have rev: "reverse_loop g n (Finite x) (edgeIndex g) (take (nat \<lceil>x\<rceil>) ?F)
             = take (nat \<lceil>x\<rceil>) ?F @ take (nat \<lceil>x\<rceil> - length (take (nat \<lceil>x\<rceil>) ?F))
                 (filter (\<lambda>y. y \<notin> set (take (nat \<lceil>x\<rceil>) ?F))
                    (reverse_candidates g n (edgeIndex g)))"
    by (rule reverse_loop_finite [OF reverse_candidates_distinct [OF ok]])
  have "getNeighbors g n (Finite x)
        = take (nat \<lfloor>x\<rfloor>) (take (nat \<lceil>x\<rceil>) ?F @ take (nat \<lceil>x\<rceil> - length (take (nat \<lceil>x\<rceil>) ?F))
                 (filter (\<lambda>y. y \<notin> set (take (nat \<lceil>x\<rceil>) ?F))
                    (reverse_candidates g n (edgeIndex g))))"
    by (simp only: getNeighbors_def reg option.case fwd rev slice0_ge_zero [OF x])
  also have "\<dots> = take (nat \<lfloor>x\<rfloor>) (?F @ index_reverse g n)"
    unfolding index_reverse_def by (rule take_two_stage [OF floor_le_ceiling_nat])
  finally show ?thesis by (simp only: Finite up_to_limit.simps)
next
  case PosInfinity
  have fwd: "forward_loop g PosInfinity (edgeTargets g n) [] = index_forward g n"
    by (simp add: forward_loop_unbounded index_forward_def)
  have rev: "reverse_loop g n PosInfinity (edgeIndex g) (index_forward g n)
             = index_forward g n @ index_reverse g n"
    by (simp add: reverse_loop_unbounded [OF reverse_candidates_distinct [OF ok]]
        index_reverse_def)
  show ?thesis
    by (simp add: PosInfinity getNeighbors_def reg fwd rev)
next
  case NegInfinity
  with lim show ?thesis by simp
next
  case NaN
  with lim show ?thesis by simp
qed

subsection \<open>The edge index of a schema whose names are registered once\<close>

lemma update_fresh: "k \<notin> fst ` set al \<Longrightarrow> AList.update k v al = al @ [(k, v)]"
  by (induction al) auto

lemma update_last: "k \<notin> fst ` set al \<Longrightarrow> AList.update k v (al @ [(k, w)]) = al @ [(k, v)]"
  by (induction al) auto

lemma map_of_last: "k \<notin> fst ` set al \<Longrightarrow> map_of (al @ [(k, w)]) k = Some w"
  by (induction al) auto

lemma index_edges_last:
  assumes fresh: "k \<notin> fst ` set ei"
  shows "index_edges k es (ei @ [(k, ts)]) = ei @ [(k, foldl set_add ts (map edge_to es))]"
proof (induction es arbitrary: ts)
  case Nil
  then show ?case by simp
next
  case (Cons a es)
  have "index_edges k (a # es) (ei @ [(k, ts)])
        = index_edges k es (AList.update k (set_add ts (edge_to a)) (ei @ [(k, ts)]))"
    by (simp only: index_edges.simps map_of_last [OF fresh] option.case)
  also have "\<dots> = index_edges k es (ei @ [(k, set_add ts (edge_to a))])"
    by (simp only: update_last [OF fresh])
  also have "\<dots> = ei @ [(k, foldl set_add (set_add ts (edge_to a)) (map edge_to es))]"
    by (rule Cons.IH)
  finally show ?case by simp
qed

lemma index_edges_fresh:
  assumes "k \<notin> fst ` set ei"
  shows "index_edges k es ei
         = (if es = [] then ei else ei @ [(k, foldl set_add [] (map edge_to es))])"
proof (cases es)
  case Nil
  then show ?thesis by simp
next
  case (Cons e es')
  have none: "map_of ei k = None" using assms by (simp add: map_of_eq_None_iff)
  have "index_edges k (e # es') ei = index_edges k es' (ei @ [(k, [edge_to e])])"
    by (simp add: none update_fresh [OF assms])
  also have "\<dots> = ei @ [(k, foldl set_add [edge_to e] (map edge_to es'))]"
    by (rule index_edges_last [OF assms])
  finally show ?thesis by (simp add: Cons set_add_def)
qed

lemma addNode_in_step:
  assumes step: "index_in_step g" and fresh: "node_name node \<notin> fst ` set (nodes g)"
  shows "index_in_step (addNode g node isRoot)"
    and "nodes (addNode g node isRoot) = nodes g @ [(node_name node, node)]"
proof -
  have idx: "edgeIndex g = map (\<lambda>e. (fst e, out_targets (snd e)))
                             (filter (\<lambda>e. node_edges (snd e) \<noteq> []) (nodes g))"
    using step by (simp add: index_in_step_def)
  have "fst ` set (edgeIndex g) \<subseteq> fst ` set (nodes g)"
    unfolding idx by force
  then have fresh': "node_name node \<notin> fst ` set (edgeIndex g)"
    using fresh by blast
  show nodes': "nodes (addNode g node isRoot) = nodes g @ [(node_name node, node)]"
    by (simp add: addNode_def update_fresh [OF fresh])
  have index': "edgeIndex (addNode g node isRoot)
                = (if node_edges node = [] then edgeIndex g
                   else edgeIndex g @ [(node_name node, out_targets node)])"
    by (simp add: addNode_def index_edges_fresh [OF fresh'] out_targets_def)
  have d: "distinct (map fst (nodes (addNode g node isRoot)))"
    using step fresh by (simp add: nodes' index_in_step_def)
  have nm: "\<forall>e \<in> set (nodes (addNode g node isRoot)). node_name (snd e) = fst e"
    using step by (auto simp: nodes' index_in_step_def)
  have ix: "edgeIndex (addNode g node isRoot)
            = map (\<lambda>e. (fst e, out_targets (snd e)))
                (filter (\<lambda>e. node_edges (snd e) \<noteq> []) (nodes (addNode g node isRoot)))"
    by (simp add: index' nodes' idx)
  from d nm ix show "index_in_step (addNode g node isRoot)"
    by (simp add: index_in_step_def)
qed

lemma add_nodes_snoc: "add_nodes (ns @ [e]) = addNode (add_nodes ns) (fst e) (snd e)"
  by (simp add: add_nodes_def)

lemma add_nodes_in_step:
  "distinct (map (\<lambda>e. node_name (fst e)) ns) \<Longrightarrow>
   index_in_step (add_nodes ns)
   \<and> nodes (add_nodes ns) = map (\<lambda>e. (node_name (fst e), fst e)) ns"
proof (induction ns rule: rev_induct)
  case Nil
  then show ?case by (simp add: add_nodes_def empty_schema_def index_in_step_def)
next
  case (snoc e ns)
  then have step: "index_in_step (add_nodes ns)"
    and stored: "nodes (add_nodes ns) = map (\<lambda>e. (node_name (fst e), fst e)) ns"
    by simp_all
  have "fst ` set (nodes (add_nodes ns)) = set (map (\<lambda>e. node_name (fst e)) ns)"
    unfolding stored by force
  then have fresh: "node_name (fst e) \<notin> fst ` set (nodes (add_nodes ns))"
    using snoc.prems by simp
  from addNode_in_step [OF step fresh, of "snd e"] stored show ?case
    by (simp add: add_nodes_snoc)
qed

lemma set_map_filter: "set (List.map_filter f xs) = {y. \<exists>x \<in> set xs. f x = Some y}"
  by (induction xs) (auto simp: map_filter_simps split: option.splits)

lemma set_foldl_set_add: "set (foldl set_add acc xs) = set acc \<union> set xs"
  by (induction xs arbitrary: acc) (auto simp: set_add_def)

lemma distinct_foldl_set_add: "distinct acc \<Longrightarrow> distinct (foldl set_add acc xs)"
  by (induction xs arbitrary: acc) (auto simp: set_add_def)

lemma set_out_targets: "set (out_targets nd) = edge_to ` set (node_edges nd)"
  by (simp add: out_targets_def set_foldl_set_add)

lemma in_step_index_ok: "index_in_step g \<Longrightarrow> index_ok g"
  by (auto simp: index_in_step_def index_ok_def o_def distinct_map_filter out_targets_def
      distinct_foldl_set_add)

lemma in_step_stored:
  assumes "index_in_step g" and "e \<in> set (nodes g)"
  shows "getNode g (fst e) = Some (snd e)" and "node_name (snd e) = fst e"
proof -
  have "distinct (map fst (nodes g))" using assms(1) by (simp add: index_in_step_def)
  then show "getNode g (fst e) = Some (snd e)"
    using assms(2) by (simp add: getNode_def)
  show "node_name (snd e) = fst e" using assms by (simp add: index_in_step_def)
qed

lemma map_of_map_filter:
  "distinct (map fst xs) \<Longrightarrow> map_of xs n = Some nd \<Longrightarrow>
   map_of (map (\<lambda>e. (fst e, f (snd e))) (filter P xs)) n
     = (if P (n, nd) then Some (f nd) else None)"
proof (induction xs)
  case Nil
  then show ?case by simp
next
  case (Cons a xs)
  obtain k v where a: "a = (k, v)" by (cases a)
  show ?case
  proof (cases "k = n")
    case True
    then have v: "v = nd" using Cons.prems a by simp
    have "n \<notin> fst ` set xs" using Cons.prems a True by auto
    then have "n \<notin> fst ` set (map (\<lambda>e. (fst e, f (snd e))) (filter P xs))" by force
    then have "map_of (map (\<lambda>e. (fst e, f (snd e))) (filter P xs)) n = None"
      by (simp only: map_of_eq_None_iff not_False_eq_True)
    then show ?thesis using a True v by simp
  next
    case False
    then show ?thesis using Cons a by simp
  qed
qed

lemma in_step_targets:
  assumes step: "index_in_step g" and reg: "getNode g n = Some nd"
  shows "edgeTargets g n = out_targets nd"
proof -
  have d: "distinct (map fst (nodes g))" using step by (simp add: index_in_step_def)
  have idx: "edgeIndex g = map (\<lambda>e. (fst e, out_targets (snd e)))
                             (filter (\<lambda>e. node_edges (snd e) \<noteq> []) (nodes g))"
    using step by (simp add: index_in_step_def)
  have "map_of (edgeIndex g) n = (if node_edges nd \<noteq> [] then Some (out_targets nd) else None)"
    unfolding idx using map_of_map_filter [OF d, of n nd out_targets
        "\<lambda>e. node_edges (snd e) \<noteq> []"] reg
    by (simp add: getNode_def)
  then show ?thesis by (simp add: edgeTargets_def out_targets_def)
qed

lemma reverse_candidates_of_nodes:
  assumes "\<forall>e \<in> set xs. getNode g (fst e) = Some (snd e) \<and> node_name (snd e) = fst e"
  shows "reverse_candidates g n
           (map (\<lambda>e. (fst e, out_targets (snd e))) (filter (\<lambda>e. node_edges (snd e) \<noteq> []) xs))
         = filter (\<lambda>x. node_name x \<noteq> n \<and> has_edge_to x n) (map snd xs)"
  using assms
proof (induction xs)
  case Nil
  then show ?case by (simp add: reverse_candidates_def map_filter_Nil2)
next
  case (Cons a xs)
  then have IH: "reverse_candidates g n
           (map (\<lambda>e. (fst e, out_targets (snd e))) (filter (\<lambda>e. node_edges (snd e) \<noteq> []) xs))
         = filter (\<lambda>x. node_name x \<noteq> n \<and> has_edge_to x n) (map snd xs)"
    by simp
  from Cons.prems have a: "getNode g (fst a) = Some (snd a)" "node_name (snd a) = fst a"
    by simp_all
  have tg: "(n \<in> set (out_targets (snd a))) = has_edge_to (snd a) n"
    by (simp add: set_out_targets has_edge_to_def)
  show ?case
  proof (cases "node_edges (snd a) = []")
    case True
    then have "\<not> has_edge_to (snd a) n" by (simp add: has_edge_to_def)
    with True IH show ?thesis by simp
  next
    case False
    show ?thesis
    proof (cases "has_edge_to (snd a) n \<and> fst a \<noteq> n")
      case True
      then have "reverse_candidates g n ((fst a, out_targets (snd a))
                   # map (\<lambda>e. (fst e, out_targets (snd e)))
                       (filter (\<lambda>e. node_edges (snd e) \<noteq> []) xs))
                 = snd a # reverse_candidates g n
                     (map (\<lambda>e. (fst e, out_targets (snd e)))
                        (filter (\<lambda>e. node_edges (snd e) \<noteq> []) xs))"
        unfolding reverse_candidates_def
        by (simp add: List.map_filter_def tg a)
      with True False IH a show ?thesis by simp
    next
      case no: False
      then have "reverse_candidates g n ((fst a, out_targets (snd a))
                   # map (\<lambda>e. (fst e, out_targets (snd e)))
                       (filter (\<lambda>e. node_edges (snd e) \<noteq> []) xs))
                 = reverse_candidates g n
                     (map (\<lambda>e. (fst e, out_targets (snd e)))
                        (filter (\<lambda>e. node_edges (snd e) \<noteq> []) xs))"
        unfolding reverse_candidates_def
        by (auto simp: List.map_filter_def tg)
      with no False IH a show ?thesis by auto
    qed
  qed
qed

lemma in_step_forward:
  assumes step: "index_in_step g" and reg: "getNode g n = Some nd"
  shows "index_forward g n = forward_neighbors g n"
  by (simp add: index_forward_def forward_neighbors_def reg in_step_targets [OF step reg])

lemma in_step_reverse:
  assumes step: "index_in_step g" and reg: "getNode g n = Some nd"
  shows "index_reverse g n = reverse_neighbors g n"
proof -
  have idx: "edgeIndex g = map (\<lambda>e. (fst e, out_targets (snd e)))
                             (filter (\<lambda>e. node_edges (snd e) \<noteq> []) (nodes g))"
    using step by (simp add: index_in_step_def)
  have "\<forall>e \<in> set (nodes g). getNode g (fst e) = Some (snd e) \<and> node_name (snd e) = fst e"
    using in_step_stored [OF step] by blast
  then have "reverse_candidates g n (edgeIndex g)
             = filter (\<lambda>x. node_name x \<noteq> n \<and> has_edge_to x n) (map snd (nodes g))"
    unfolding idx by (rule reverse_candidates_of_nodes)
  then show ?thesis
    by (simp add: index_reverse_def reverse_neighbors_def in_step_forward [OF step reg]
        conj_assoc cong: filter_cong)
qed

lemma forward_neighbors_set:
  assumes step: "index_in_step g" and reg: "getNode g n = Some nd"
  shows "set (forward_neighbors g n)
         = {x. getNode g (node_name x) = Some x \<and> has_edge_to nd (node_name x)}"
proof -
  have nm: "\<And>k x. getNode g k = Some x \<Longrightarrow> node_name x = k"
    using getNode_name [OF in_step_index_ok [OF step]] .
  have "set (forward_neighbors g n) = {x. \<exists>t \<in> set (out_targets nd). getNode g t = Some x}"
    by (simp add: forward_neighbors_def reg set_map_filter)
  also have "\<dots> = {x. getNode g (node_name x) = Some x \<and> has_edge_to nd (node_name x)}"
    using nm by (auto simp: set_out_targets has_edge_to_def)
  finally show ?thesis .
qed

lemma reverse_neighbors_set:
  assumes step: "index_in_step g"
  shows "set (reverse_neighbors g n)
         = {x. getNode g (node_name x) = Some x \<and> node_name x \<noteq> n \<and> has_edge_to x n
               \<and> x \<notin> set (forward_neighbors g n)}"
proof -
  have "\<And>x. (x \<in> snd ` set (nodes g)) = (getNode g (node_name x) = Some x)"
  proof
    fix x assume "x \<in> snd ` set (nodes g)"
    then obtain e where e: "e \<in> set (nodes g)" "x = snd e" by blast
    with in_step_stored [OF step e(1)] show "getNode g (node_name x) = Some x" by simp
  next
    fix x assume "getNode g (node_name x) = Some x"
    then have "(node_name x, x) \<in> set (nodes g)"
      by (simp add: getNode_def map_of_SomeD)
    then show "x \<in> snd ` set (nodes g)" by force
  qed
  then show ?thesis by (auto simp: reverse_neighbors_def)
qed

subsection \<open>The claim\<close>

lemma at_most_up_to_limit:
  assumes "limit_ge_zero limit"
  shows "at_most (length (up_to_limit limit xs)) limit"
proof (cases limit)
  case (Finite x)
  with assms have x: "0 \<le> x" by simp
  then have fl: "0 \<le> \<lfloor>x\<rfloor>" by simp
  have "length (take (nat \<lfloor>x\<rfloor>) xs) \<le> nat \<lfloor>x\<rfloor>" by simp
  then have "real (length (take (nat \<lfloor>x\<rfloor>) xs)) \<le> real (nat \<lfloor>x\<rfloor>)"
    by (rule iffD2 [OF of_nat_le_iff])
  also have "real (nat \<lfloor>x\<rfloor>) = of_int \<lfloor>x\<rfloor>" using fl by (rule of_nat_nat)
  also have "of_int \<lfloor>x\<rfloor> \<le> x" by (rule of_int_floor_le)
  finally show ?thesis by (simp only: Finite up_to_limit.simps at_most.simps)
next
  case PosInfinity
  then show ?thesis by simp
next
  case NegInfinity
  with assms show ?thesis by simp
next
  case NaN
  with assms show ?thesis by simp
qed

lemma set_up_to_limit: "set (up_to_limit limit xs) \<subseteq> set xs"
  by (cases limit) (auto dest: in_set_takeD)

lemma distinct_up_to_limit: "distinct xs \<Longrightarrow> distinct (up_to_limit limit xs)"
  by (cases limit) simp_all

lemma employee_schema_eval:
  "employee_schema = \<lparr>nodes = [(''Employee'', employee_node)], rootNodeNames = [''Employee''],
      edgeIndex = [(''Employee'', [''Employee''])]\<rparr>"
  by (simp add: employee_schema_def addNode_def empty_schema_def employee_node_def mk_node_def
      mk_edge_def set_add_def)

lemma redefined_schema_eval:
  "redefined_schema = \<lparr>nodes = [(''Draft'', plain_draft_node), (''Tag'', tag_node)],
      rootNodeNames = [''Draft'', ''Tag''], edgeIndex = [(''Draft'', [''Tag''])]\<rparr>"
  by (simp add: redefined_schema_def addNode_def empty_schema_def draft_node_def
      plain_draft_node_def tag_node_def mk_node_def mk_edge_def set_add_def)

text \<open>
  C5, as stated, fails in three ways.

  A node with an edge to itself is its own neighbour: only the second loop of
  \<^verbatim>\<open>getNeighbors\<close> skips the node's own name, the first loop lists every registered target
  of the node's edges. The neighbours of \<open>Employee\<close>, whose manager is an \<open>Employee\<close>, are
  \<open>Employee\<close> itself.

  A limit that is not at least zero gives no node at all, and the count of zero is not
  at most the limit: so for the limit \<open>-1\<close>, and so for \<^verbatim>\<open>NaN\<close>.

  \<^verbatim>\<open>addNode\<close> adds to the edge index and never removes from it. When \<open>Draft\<close> is registered
  with an edge to \<open>Tag\<close> and then again without edges, the registered node \<open>Draft\<close> has no
  edge and no registered node has an edge to \<open>Draft\<close>, so \<open>Draft\<close> has neither forward nor
  reverse neighbours; \<^verbatim>\<open>getNeighbors\<close> still lists \<open>Tag\<close>.
\<close>

theorem getNeighbors_counterexample:
  "getNode employee_schema ''Employee'' = Some employee_node
   \<and> getNeighbors employee_schema ''Employee'' (Finite 5) = [employee_node]
   \<and> getNode test_schema ''Order'' = Some order_node
   \<and> getNeighbors test_schema ''Order'' (Finite (-1)) = []
   \<and> \<not> at_most (length (getNeighbors test_schema ''Order'' (Finite (-1)))) (Finite (-1))
   \<and> getNeighbors test_schema ''Order'' NaN = []
   \<and> \<not> at_most (length (getNeighbors test_schema ''Order'' NaN)) NaN
   \<and> getNode redefined_schema ''Draft'' = Some plain_draft_node
   \<and> node_edges plain_draft_node = []
   \<and> map snd (nodes redefined_schema) = [plain_draft_node, tag_node]
   \<and> node_edges tag_node = []
   \<and> forward_neighbors redefined_schema ''Draft'' = []
   \<and> reverse_neighbors redefined_schema ''Draft'' = []
   \<and> getNeighbors redefined_schema ''Draft'' (Finite 5) = [tag_node]"
proof -
  have self: "getNode employee_schema ''Employee'' = Some employee_node"
    "getNeighbors employee_schema ''Employee'' (Finite 5) = [employee_node]"
    by (simp_all add: employee_schema_eval getNode_def getNeighbors_def edgeTargets_def Let_def)
  have neg: "getNeighbors test_schema ''Order'' (Finite (-1)) = []"
    by (simp add: test_schema_eval getNode_def getNeighbors_def edgeTargets_def Let_def)
  have nan: "getNeighbors test_schema ''Order'' NaN = []"
    by (simp add: test_schema_eval getNode_def getNeighbors_def edgeTargets_def)
  have edges: "node_edges plain_draft_node = []" "node_edges tag_node = []"
    by (simp_all add: plain_draft_node_def tag_node_def mk_node_def)
  have stale: "getNode redefined_schema ''Draft'' = Some plain_draft_node"
    "map snd (nodes redefined_schema) = [plain_draft_node, tag_node]"
    "getNeighbors redefined_schema ''Draft'' (Finite 5) = [tag_node]"
    by (simp_all add: redefined_schema_eval getNode_def getNeighbors_def edgeTargets_def Let_def)
  have fwd: "forward_neighbors redefined_schema ''Draft'' = []"
    by (simp add: forward_neighbors_def stale(1) out_targets_def edges map_filter_Nil2)
  have rev: "reverse_neighbors redefined_schema ''Draft'' = []"
    by (simp add: reverse_neighbors_def stale(2) has_edge_to_def edges)
  show ?thesis
    unfolding neg nan
    using self test_schema_registered(2) edges stale fwd rev by simp
qed

text \<open>
  C5 (amended): in a schema built by \<^verbatim>\<open>addNode\<close> calls that register every name once, for a
  registered name \<open>n\<close> and a limit that is at least zero (\<^verbatim>\<open>Infinity\<close> included),
  \<^verbatim>\<open>getNeighbors\<close> returns the entries, from the front and as many as the limit admits, of
  the list that has first the forward neighbours of \<open>n\<close> and then its reverse neighbours.
  It returns at most \<open>limit\<close> nodes, all registered, none twice. The registered nodes are
  the nodes of the calls, in the order of the calls, and the node registered for \<open>n\<close> has
  the name \<open>n\<close>. The forward neighbours are the registered nodes that an outgoing edge of
  \<open>n\<close> targets; the reverse neighbours are the registered nodes other than \<open>n\<close> that have an
  outgoing edge targeting \<open>n\<close> and are not forward neighbours. The node of \<open>n\<close> itself is
  in the result only when \<open>n\<close> has an edge to itself.
\<close>

theorem getNeighbors_forward_then_reverse:
  assumes built: "g = add_nodes ns"
    and once: "distinct (map (\<lambda>e. node_name (fst e)) ns)"
    and reg: "getNode g n = Some nd"
    and lim: "limit_ge_zero limit"
  shows "getNeighbors g n limit
           = up_to_limit limit (forward_neighbors g n @ reverse_neighbors g n)
       \<and> at_most (length (getNeighbors g n limit)) limit
       \<and> distinct (getNeighbors g n limit)
       \<and> (\<forall>x \<in> set (getNeighbors g n limit). getNode g (node_name x) = Some x)
       \<and> map snd (nodes g) = map fst ns
       \<and> node_name nd = n
       \<and> set (forward_neighbors g n)
           = {x. getNode g (node_name x) = Some x \<and> has_edge_to nd (node_name x)}
       \<and> set (reverse_neighbors g n)
           = {x. getNode g (node_name x) = Some x \<and> node_name x \<noteq> n \<and> has_edge_to x n
                 \<and> x \<notin> set (forward_neighbors g n)}
       \<and> (nd \<in> set (getNeighbors g n limit) \<longrightarrow> has_edge_to nd n)"
proof -
  let ?F = "forward_neighbors g n" and ?R = "reverse_neighbors g n"
  have step: "index_in_step g"
    using add_nodes_in_step [OF once] by (simp add: built)
  have order: "map snd (nodes g) = map fst ns"
    using add_nodes_in_step [OF once] by (simp add: built o_def)
  have ok: "index_ok g" using step by (rule in_step_index_ok)
  have F: "index_forward g n = ?F" by (rule in_step_forward [OF step reg])
  have R: "index_reverse g n = ?R" by (rule in_step_reverse [OF step reg])
  have closed: "getNeighbors g n limit = up_to_limit limit (?F @ ?R)"
    using getNeighbors_closed [OF ok reg lim] by (simp only: F R)
  have len: "at_most (length (getNeighbors g n limit)) limit"
    unfolding closed by (rule at_most_up_to_limit [OF lim])
  have dF: "distinct ?F" using index_forward_distinct [OF ok, of n] by (simp only: F)
  have dR: "distinct ?R" using index_reverse_distinct [OF ok, of n] by (simp only: R)
  have "set ?F \<inter> set ?R = {}" by (auto simp: reverse_neighbors_def)
  with dF dR have "distinct (?F @ ?R)" by simp
  then have dist: "distinct (getNeighbors g n limit)"
    unfolding closed by (rule distinct_up_to_limit)
  have fwd: "set ?F = {x. getNode g (node_name x) = Some x \<and> has_edge_to nd (node_name x)}"
    by (rule forward_neighbors_set [OF step reg])
  have rev: "set ?R = {x. getNode g (node_name x) = Some x \<and> node_name x \<noteq> n
                 \<and> has_edge_to x n \<and> x \<notin> set ?F}"
    by (rule reverse_neighbors_set [OF step])
  have sub: "set (getNeighbors g n limit) \<subseteq> set ?F \<union> set ?R"
    using set_up_to_limit [of limit "?F @ ?R"] by (simp add: closed)
  have regd: "\<forall>x \<in> set (getNeighbors g n limit). getNode g (node_name x) = Some x"
  proof
    fix x assume "x \<in> set (getNeighbors g n limit)"
    with sub have "x \<in> set ?F \<or> x \<in> set ?R" by blast
    then show "getNode g (node_name x) = Some x"
      unfolding fwd rev by blast
  qed
  have nm: "node_name nd = n" using getNode_name [OF ok reg] .
  have self: "nd \<in> set (getNeighbors g n limit) \<longrightarrow> has_edge_to nd n"
  proof
    assume "nd \<in> set (getNeighbors g n limit)"
    with sub have "nd \<in> set ?F \<or> nd \<in> set ?R" by blast
    then show "has_edge_to nd n"
    proof
      assume "nd \<in> set ?F"
      then show ?thesis unfolding fwd using nm by simp
    next
      assume "nd \<in> set ?R"
      then show ?thesis unfolding rev using nm by simp
    qed
  qed
  from closed len dist regd order nm fwd rev self show ?thesis by blast
qed

lemma test_schema_built:
  "test_schema = add_nodes [(user_node, True), (order_node, True), (product_node, True)]"
  by (simp add: test_schema_def add_nodes_def)

lemma test_schema_once:
  "distinct (map (\<lambda>e. node_name (fst e))
     [(user_node, True), (order_node, True), (product_node, True)])"
  by (simp add: user_node_def order_node_def product_node_def mk_node_def)

lemma test_schema_neighbors:
  "forward_neighbors test_schema ''Order'' = [user_node, product_node]"
  "reverse_neighbors test_schema ''Order'' = []"
  "forward_neighbors test_schema ''Product'' = []"
  "reverse_neighbors test_schema ''Product'' = [order_node]"
proof -
  have ot: "out_targets order_node = [''User'', ''Product'']" "out_targets product_node = []"
    by (simp_all add: out_targets_def order_node_def product_node_def mk_node_def mk_edge_def
        set_add_def)
  show fo: "forward_neighbors test_schema ''Order'' = [user_node, product_node]"
    by (simp add: forward_neighbors_def test_schema_registered ot List.map_filter_def)
  show fp: "forward_neighbors test_schema ''Product'' = []"
    by (simp add: forward_neighbors_def test_schema_registered ot List.map_filter_def)
  have nodes: "map snd (nodes test_schema) = [user_node, order_node, product_node]"
    by (simp add: test_schema_eval)
  have names: "node_name user_node = ''User''" "node_name order_node = ''Order''"
    "node_name product_node = ''Product''"
    by (simp_all add: user_node_def order_node_def product_node_def mk_node_def)
  have edges: "has_edge_to user_node ''Order''" "\<not> has_edge_to product_node ''Order''"
    "\<not> has_edge_to user_node ''Product''" "has_edge_to order_node ''Product''"
    by (simp_all add: has_edge_to_def user_node_def order_node_def product_node_def mk_node_def
        mk_edge_def)
  show "reverse_neighbors test_schema ''Order'' = []"
    unfolding reverse_neighbors_def fo nodes by (simp add: names edges)
  show "reverse_neighbors test_schema ''Product'' = [order_node]"
    unfolding reverse_neighbors_def fp nodes by (simp add: names edges)
qed

theorem getNeighbors_forward_then_reverse_witness:
  "test_schema = add_nodes [(user_node, True), (order_node, True), (product_node, True)]
   \<and> distinct (map (\<lambda>e. node_name (fst e))
        [(user_node, True), (order_node, True), (product_node, True)])
   \<and> getNode test_schema ''Order'' = Some order_node
   \<and> getNode test_schema ''Product'' = Some product_node
   \<and> limit_ge_zero (Finite 5) \<and> limit_ge_zero (Finite 1) \<and> limit_ge_zero PosInfinity
   \<and> getNeighbors test_schema ''Order'' (Finite 5) = [user_node, product_node]
   \<and> getNeighbors test_schema ''Order'' (Finite 1) = [user_node]
   \<and> getNeighbors test_schema ''Order'' PosInfinity = [user_node, product_node]
   \<and> getNeighbors test_schema ''Product'' (Finite 5) = [order_node]"
proof -
  note inst = getNeighbors_forward_then_reverse [OF test_schema_built test_schema_once]
  have "getNeighbors test_schema ''Order'' (Finite 5) = [user_node, product_node]"
    using inst [OF test_schema_registered(2), of "Finite 5"]
    by (simp add: test_schema_neighbors)
  moreover have "getNeighbors test_schema ''Order'' (Finite 1) = [user_node]"
    using inst [OF test_schema_registered(2), of "Finite 1"]
    by (simp add: test_schema_neighbors)
  moreover have "getNeighbors test_schema ''Order'' PosInfinity = [user_node, product_node]"
    using inst [OF test_schema_registered(2), of PosInfinity]
    by (simp add: test_schema_neighbors)
  moreover have "getNeighbors test_schema ''Product'' (Finite 5) = [order_node]"
    using inst [OF test_schema_registered(3), of "Finite 5"]
    by (simp add: test_schema_neighbors)
  ultimately show ?thesis
    using test_schema_built test_schema_once test_schema_registered by simp
qed

end
